theory Spec2Isabelle
  imports Main "HOL-Library.Word" "HOL-Library.Sublist"
begin

unbundle bit_operations_syntax

section \<open>Machine types, faults\<close>

type_synonym u32 = "32 word"
type_synonym u64 = "64 word"

text \<open>Page addresses. A C++ pointer is an \<open>addr option\<close>: \<open>None\<close> is \<open>nullptr\<close>.\<close>

type_synonym addr = nat

text \<open>
  \<open>LOG_ASSERT\<close> aborts the program when its condition is false; dereferencing
  \<open>nullptr\<close> crashes it. Both are results of the model.
\<close>

datatype fault = AssertionFailed string | NullDereference | Terminated

section \<open>RowStorePage (src/deltamain/rowstore/RowStorePage.cpp)\<close>

text \<open>
  The record class \<open>CDMRecord\<close> (Record.hpp) is not among the sources; what
  \<open>gc\<close> and \<open>fillWithInserts\<close> call on it is a parameter of the model:
  \<open>rec_size\<close> is \<open>size()\<close>, \<open>rec_key\<close> is \<open>key()\<close>,
  \<open>needsCleaning\<close> is the query of that name, and \<open>copyAndCompact\<close> gets the
  record, the lowest active version, the insert map, the destination (fill page and offset in
  it) and the space left, and gives back the bytes written, \<open>couldRelocate\<close>, the insert
  map as it leaves it and the bytes it wrote at the destination. \<open>dummyRecord key\<close> is
  the 40-byte vehicle record of \<open>fillWithInserts\<close> with newest pointer null and the
  key written in. \<open>PAGE_SIZE\<close> is \<open>TELL_PAGE_SIZE\<close>. Offsets are
  \<open>uint64_t\<close>.

  The \<open>InsertMap\<close> is an ordered map: a list of (key, pending inserts) in iteration
  order. \<open>insertMap.begin()\<close> is its first entry.
\<close>

type_synonym 'v insert_map = "(u64 \<times> 'v) list"

type_synonym location = "addr \<times> u64"

record ('r, 'v, 'b) record_ops =
  rec_size :: "'r \<Rightarrow> u64"
  rec_key :: "'r \<Rightarrow> u64"
  needsCleaning :: "'r \<Rightarrow> u64 \<Rightarrow> 'v insert_map \<Rightarrow> bool"
  copyAndCompact :: "'r \<Rightarrow> u64 \<Rightarrow> 'v insert_map \<Rightarrow> location \<Rightarrow> u64 \<Rightarrow>
                       u64 \<times> bool \<times> 'v insert_map \<times> 'b"
  dummyRecord :: "u64 \<Rightarrow> 'r"
  PAGE_SIZE :: u64

text \<open>
  The memory of a row-store page: its first 8 bytes (the used-byte count) and, by offset,
  what \<open>copyAndCompact\<close> wrote into it.
\<close>

record 'b page_mem =
  usedBytes :: u64
  body :: "u64 \<Rightarrow> 'b option"

text \<open>
  The \<open>RowStorePage\<close> object with the state it reaches: the input page \<open>mData\<close>
  (\<open>recordAt off\<close> is the record \<open>CDMRecord(mData + off)\<close> reads), its size, the
  resume offset, the open fill page and the fill offset, the free pages of the
  \<open>PageManager\<close> (a stack), the pages marked for deletion and the memory of the pages.
\<close>

record ('r, 'b) row_store_page =
  mData :: addr
  recordAt :: "u64 \<Rightarrow> 'r"
  mSize :: u64
  mStartOffset :: u64
  mFillPage :: "addr option"
  mFillOffset :: u64
  freePages :: "addr list"
  markedForDeletion :: "addr list"
  memory :: "addr \<Rightarrow> 'b page_mem"

text \<open>
  Modelled from the spec: the hash-table modifier (CuckooHash.hpp is not among the sources).
  \<open>insert(key, location, isRelocation)\<close> records the location of the key,
  \<open>get(key)\<close> reads it. The model keeps the calls of \<open>insert\<close> in order; the call
  \<open>hashTable.insert(key, pos)\<close> of \<open>fillWithInserts\<close> passes no relocation flag,
  which is \<open>False\<close> here.
\<close>

record hash_table =
  table :: "u64 \<Rightarrow> location option"
  insertCalls :: "(u64 \<times> location \<times> bool) list"

definition ht_insert :: "u64 \<Rightarrow> location \<Rightarrow> bool \<Rightarrow> hash_table \<Rightarrow> hash_table" where
  "ht_insert key loc isRelocation ht =
     ht\<lparr>table := (table ht)(key \<mapsto> loc),
        insertCalls := insertCalls ht @ [(key, loc, isRelocation)]\<rparr>"


text \<open>
  Modelled from the spec: \<open>constructFillPage\<close> and \<open>markCurrentForDeletion\<close> are
  defined in RowStorePage.hpp, which is not among the sources. The first, if no fill page is
  open, allocates one from the PageManager (\<open>alloc\<close> pops the stack of free pages and
  gives \<open>nullptr\<close> when it is empty) and sets \<open>mFillOffset = 8\<close>; the second hands
  the input page to deferred reclamation.
\<close>

definition constructFillPage :: "('r, 'b) row_store_page \<Rightarrow> ('r, 'b) row_store_page" where
  "constructFillPage st =
     (case mFillPage st of
        Some _ \<Rightarrow> st
      | None \<Rightarrow>
          (case freePages st of
             [] \<Rightarrow> st\<lparr>mFillOffset := 8\<rparr>
           | p # ps \<Rightarrow> st\<lparr>mFillPage := Some p, mFillOffset := 8, freePages := ps\<rparr>))"

definition markCurrentForDeletion :: "('r, 'b) row_store_page \<Rightarrow> ('r, 'b) row_store_page" where
  "markCurrentForDeletion st = st\<lparr>markedForDeletion := markedForDeletion st @ [mData st]\<rparr>"

text \<open>What \<open>copyAndCompact\<close> wrote at the destination, and the store of the used-byte
  count into the first 8 bytes of a page.\<close>

definition write_body :: "location \<Rightarrow> 'b \<Rightarrow> (addr \<Rightarrow> 'b page_mem) \<Rightarrow> addr \<Rightarrow> 'b page_mem" where
  "write_body pos blob mem =
     mem(fst pos := (mem (fst pos))\<lparr>body := (body (mem (fst pos)))(snd pos \<mapsto> blob)\<rparr>)"

definition write_used :: "addr \<Rightarrow> u64 \<Rightarrow> (addr \<Rightarrow> 'b page_mem) \<Rightarrow> addr \<Rightarrow> 'b page_mem" where
  "write_used p n mem = mem(p := (mem p)\<lparr>usedBytes := n\<rparr>)"

text \<open>
  \<open>RowStorePage::gc\<close>, lines 63-121. The first loop (lines 73-80) gives the final
  \<open>hasToClean\<close>; it and the second loop (lines 96-116) run as long as the records say,
  so not returning is the value \<open>None\<close>. The result of \<open>gc\<close> is the returned pointer,
  \<open>done\<close>, and the object, the insert map and the hash table as they are left.
\<close>

partial_function (option) gc_scan ::
  "('r, 'v, 'b) record_ops \<Rightarrow> ('r, 'b) row_store_page \<Rightarrow> u64 \<Rightarrow> 'v insert_map \<Rightarrow>
   u64 \<Rightarrow> bool \<Rightarrow> bool option" where
  "gc_scan ops st lowestActiveVersion insertMap offset hasToClean =
     (if offset < mSize st \<and> \<not> hasToClean then
        (let rec = recordAt st offset in
         if needsCleaning ops rec lowestActiveVersion insertMap then Some True
         else gc_scan ops st lowestActiveVersion insertMap (offset + rec_size ops rec) hasToClean)
      else Some hasToClean)"

type_synonym ('r, 'v, 'b) gc_result =
  "fault + (addr option \<times> bool \<times> ('r, 'b) row_store_page \<times> 'v insert_map \<times> hash_table)"

partial_function (option) gc_compact ::
  "('r, 'v, 'b) record_ops \<Rightarrow> u64 \<Rightarrow> ('r, 'b) row_store_page \<Rightarrow> 'v insert_map \<Rightarrow>
   hash_table \<Rightarrow> u64 \<Rightarrow> ('r, 'v, 'b) gc_result option" where
  "gc_compact ops lowestActiveVersion st insertMap hashTable offset =
     (if offset < mSize st then
        (let rec = recordAt st offset in
         case mFillPage st of
           None \<Rightarrow> Some (Inl NullDereference)
         | Some fillPage \<Rightarrow>
             (let pos = (fillPage, mFillOffset st) in
              case copyAndCompact ops rec lowestActiveVersion insertMap pos
                     (PAGE_SIZE ops - mFillOffset st) of
                (written, couldRelocate, insertMap', blob) \<Rightarrow>
                  (let st1 = st\<lparr>mFillOffset := mFillOffset st + written,
                                  memory := write_body pos blob (memory st)\<rparr>
                   in if \<not> couldRelocate then
                        Some (Inr (Some fillPage, False,
                                   st1\<lparr>memory := write_used fillPage (mFillOffset st1) (memory st1),
                                       mFillPage := None\<rparr>,
                                   insertMap', hashTable))
                      else gc_compact ops lowestActiveVersion st1 insertMap'
                             (ht_insert (rec_key ops rec) pos True hashTable)
                             (offset + rec_size ops rec))))
      else Some (Inr (None, True, st, insertMap, hashTable)))"

definition gc ::
  "('r, 'v, 'b) record_ops \<Rightarrow> u64 \<Rightarrow> ('r, 'b) row_store_page \<Rightarrow> 'v insert_map \<Rightarrow>
   hash_table \<Rightarrow> ('r, 'v, 'b) gc_result option" where
  "gc ops lowestActiveVersion st insertMap hashTable =
     (case gc_scan ops st lowestActiveVersion insertMap (mStartOffset st) (mStartOffset st \<noteq> 8) of
        None \<Rightarrow> None
      | Some hasToClean \<Rightarrow>
          if \<not> hasToClean then Some (Inr (Some (mData st), True, st, insertMap, hashTable))
          else
            (let st1 = (if mStartOffset st = 8 then markCurrentForDeletion st else st);
                 st2 = constructFillPage st1
             in gc_compact ops lowestActiveVersion st2 insertMap hashTable (mStartOffset st2)))"

text \<open>
  \<open>RowStorePage::fillWithInserts\<close>, lines 123-169. \<open>insertMap.erase(fst)\<close> removes
  the node the iterator \<open>fst\<close> points to, the first node with its key.
\<close>

fun im_erase :: "u64 \<Rightarrow> 'v insert_map \<Rightarrow> 'v insert_map" where
  "im_erase key [] = []"
| "im_erase key (e # es) = (if fst e = key then es else e # im_erase key es)"





subsection \<open>Pages, insert maps and runs the properties speak of\<close>

text \<open>
  \<open>page_records ops st offset rs\<close>: from \<open>offset\<close> on, the input page holds exactly the
  records \<open>rs\<close>, one after the other, up to \<open>mSize\<close>. These are the records the
  iteration from \<open>offset\<close> visits.
\<close>

fun page_records :: "('r, 'v, 'b) record_ops \<Rightarrow> ('r, 'b) row_store_page \<Rightarrow> u64 \<Rightarrow> 'r list \<Rightarrow> bool" where
  "page_records ops st offset [] = (\<not> offset < row_store_page.mSize st)"
| "page_records ops st offset (r # rs) =
     (offset < row_store_page.mSize st \<and> recordAt st offset = r \<and>
      page_records ops st (offset + rec_size ops r) rs)"

definition none_needs_cleaning ::
  "('r, 'v, 'b) record_ops \<Rightarrow> u64 \<Rightarrow> 'v insert_map \<Rightarrow> 'r list \<Rightarrow> bool" where
  "none_needs_cleaning ops lav im rs = list_all (\<lambda>r. \<not> needsCleaning ops r lav im) rs"





text \<open>The result of a \<open>gc\<close> call leaves \<open>mStartOffset\<close> as it was.\<close>

definition keeps_start ::
  "('r, 'b) row_store_page \<Rightarrow> ('r, 'v, 'b) gc_result \<Rightarrow> bool" where
  "keeps_start st y =
     (case y of Inl f \<Rightarrow> True
      | Inr (res, dn, st', im', ht') \<Rightarrow> mStartOffset st' = mStartOffset st)"

subsection \<open>A small instance\<close>

text \<open>
  Records are (key, size, version); a record needs cleaning when its version is below the
  lowest active version; \<open>copyAndCompact\<close> copies the record if it fits into the space
  left and reports \<open>couldRelocate = false\<close> otherwise. Pages have 64 bytes. The input
  page at address 10 holds three records of 24 bytes; pages 20 and 21 are free.
\<close>

definition toy_ops :: "(u64 \<times> u64 \<times> u64, unit, u64 \<times> u64 \<times> u64) record_ops" where
  "toy_ops =
     \<lparr>rec_size = (\<lambda>r. fst (snd r)),
      rec_key = fst,
      needsCleaning = (\<lambda>r lav im. snd (snd r) < lav),
      copyAndCompact = (\<lambda>r lav im pos space.
         if fst (snd r) \<le> space then (fst (snd r), True, im, r) else (0, False, im, r)),
      dummyRecord = (\<lambda>key. (key, 40, 0)),
      PAGE_SIZE = 64\<rparr>"

definition toy_page :: "(u64 \<times> u64 \<times> u64, u64 \<times> u64 \<times> u64) row_store_page" where
  "toy_page =
     \<lparr>mData = 10,
      recordAt = (\<lambda>off. if off = 8 then (1, 24, 0) else if off = 32 then (2, 24, 0) else (3, 24, 0)),
      mSize = 80, mStartOffset = 8, mFillPage = None, mFillOffset = 0,
      freePages = [20, 21], markedForDeletion = [],
      memory = (\<lambda>p. \<lparr>usedBytes = 0, body = (\<lambda>off. None)\<rparr>)\<rparr>"

definition empty_table :: hash_table where
  "empty_table = \<lparr>table = (\<lambda>k. None), insertCalls = []\<rparr>"


text \<open>The object and the hash table after one and after two calls of \<open>gc\<close> with
  lowest active version 1.\<close>

definition toy_page1 :: "(u64 \<times> u64 \<times> u64, u64 \<times> u64 \<times> u64) row_store_page" where
  "toy_page1 = toy_page\<lparr>mFillOffset := 56, freePages := [21], markedForDeletion := [10],
      memory := write_used 20 56 (write_body (20, 56) (3, 24, 0) (write_body (20, 32) (2, 24, 0)
                  (write_body (20, 8) (1, 24, 0) (memory toy_page))))\<rparr>"

definition toy_table1 :: hash_table where
  "toy_table1 = ht_insert 2 (20, 32) True (ht_insert 1 (20, 8) True empty_table)"

definition toy_page2 :: "(u64 \<times> u64 \<times> u64, u64 \<times> u64 \<times> u64) row_store_page" where
  "toy_page2 = toy_page1\<lparr>mFillOffset := 56, freePages := [], markedForDeletion := [10, 10],
      memory := write_used 21 56 (write_body (21, 56) (3, 24, 0) (write_body (21, 32) (2, 24, 0)
                  (write_body (21, 8) (1, 24, 0) (memory toy_page1))))\<rparr>"

definition toy_table2 :: hash_table where
  "toy_table2 = ht_insert 2 (21, 32) True (ht_insert 1 (21, 8) True toy_table1)"

section \<open>LogEntry (src/util/Log.cpp)\<close>

text \<open>
  The entry header: the atomic 32-bit \<open>mSize\<close>, holding
  \<open>(payloadSize << 1) | acquiredBit\<close> (0 = free), and the 32-bit \<open>mType\<close>.
\<close>

record log_entry =
  mSize :: u32
  mType :: u32

text \<open>
  Modelled from the spec: \<open>LogEntry::entrySizeFromSize\<close> is declared in Log.hpp, which
  is not among the sources. The spec gives it as round-up-to-16 of (size + header), the header
  being \<open>LOG_ENTRY_SIZE\<close> bytes. \<open>LOG_ENTRY_SIZE\<close> is the parameter \<open>L\<close>; the
  arithmetic is that of \<open>uint32_t\<close>.
\<close>

definition entrySizeFromSize :: "u32 \<Rightarrow> u32 \<Rightarrow> u32" where
  "entrySizeFromSize L sz =
     (let s = sz + L in s + (if s mod 16 \<noteq> 0 then 16 - s mod 16 else 0))"

text \<open>
  \<open>LogEntry::tryAcquire\<close>, lines 37-48. The compare-and-swap on \<open>mSize\<close> is one
  atomic step on the entry: it succeeds exactly when the field holds 0, and on a failure
  \<open>exp\<close> is the value found.
\<close>

definition tryAcquire :: "u32 \<Rightarrow> u32 \<Rightarrow> u32 \<Rightarrow> log_entry \<Rightarrow> fault + (u32 \<times> log_entry)" where
  "tryAcquire L sz type e =
     (if sz = 0 then Inl (AssertionFailed ''Size has to be greater than zero'')
      else if drop_bit 31 sz \<noteq> 0 then Inl (AssertionFailed ''MSB has to be zero'')
      else
        (let s = push_bit 1 sz OR 1;
             exp = mSize e
         in if exp \<noteq> 0 then Inr (entrySizeFromSize L (drop_bit 1 exp), e)
            else Inr (0, e\<lparr>mSize := s, mType := type\<rparr>)))"

section \<open>LogPage (src/util/Log.cpp)\<close>

text \<open>
  The constants of Log.hpp, which is not among the sources, are parameters:
  \<open>MAX_ENTRY_SIZE\<close> (the page size less \<open>LOG_HEADER_SIZE\<close>), \<open>LOG_ENTRY_SIZE\<close>
  and \<open>LOG_HEADER_SIZE\<close> (\<open>data()\<close> is the address of the page plus this).
\<close>

record log_params =
  MAX_ENTRY_SIZE :: u32
  LOG_ENTRY_SIZE :: u32
  LOG_HEADER_SIZE :: nat

text \<open>
  A log page: the atomic \<open>mOffset\<close>, holding \<open>(bytesUsed << 1) | bit\<close> with bit 1
  while the page is unsealed, the atomic \<open>mNext\<close>, and the entry headers of its data
  area by position (\<open>entries pg pos\<close> is the header at \<open>data() + pos\<close>).
\<close>

record log_page =
  mOffset :: u32
  mNext :: "addr option"
  entries :: "u32 \<Rightarrow> log_entry"

text \<open>
  Other threads. \<open>appendEntry\<close> touches the page by atomic operations only; what other
  threads did to the page since the previous one is a function on the page, applied just
  before the operation. An \<open>interference\<close> lists these functions, one for each atomic
  operation in turn; when the list is used up, the thread runs alone. The empty list is
  the sequential run.
\<close>

type_synonym interference = "(log_page \<Rightarrow> log_page) list"

definition interfere :: "interference \<Rightarrow> log_page \<Rightarrow> log_page" where
  "interfere env pg = (case env of [] \<Rightarrow> pg | f # _ \<Rightarrow> f pg)"

text \<open>
  What the atomic operations of \<open>appendEntry\<close> found, in order: the offset loaded at
  line 60, the value of \<open>mSize\<close> the compare-and-swap of \<open>tryAcquire\<close> found at a
  position (0 when it succeeded), and the expected, the new and the found value of the
  compare-and-swap on \<open>mOffset\<close> at line 90.
\<close>

datatype event = LoadOffset u32 | CasSize u32 u32 | CasOffset u32 u32 u32

text \<open>
  Lines 88-103 of \<open>LogPage::appendEntry\<close>: the loop that raises the page offset. The
  result is \<open>True\<close> when the loop is left for \<open>return entry\<close> and \<open>False\<close> for
  \<open>return nullptr\<close>.
\<close>

function publishOffset ::
  "interference \<Rightarrow> log_page \<Rightarrow> u32 \<Rightarrow> u32 \<Rightarrow> u32 \<Rightarrow> event list \<Rightarrow>
   bool \<times> log_page \<times> interference \<times> event list" where
  "publishOffset env pg offset nOffset endPosition tr =
     (if offset < nOffset then
        (let pg1 = interfere env pg;
             found = mOffset pg1;
             tr1 = tr @ [CasOffset offset nOffset found]
         in if found = offset then (True, pg1\<lparr>mOffset := nOffset\<rparr>, tl env, tr1)
            else if found AND 1 = 0 then
              (if endPosition \<le> drop_bit 1 found then (True, pg1, tl env, tr1)
               else (False, pg1, tl env, tr1))
            else publishOffset (tl env) pg1 found nOffset endPosition tr1)
      else (True, pg, env, tr))"
  by pat_completeness auto
termination
  by (relation "measure (\<lambda>(env, pg, offset, nOffset, endPosition, tr).
        2 * length env + (if mOffset pg = offset then 0 else 1))")
     (auto simp: interfere_def split: list.splits)

text \<open>
  Lines 68-106: the loop that looks for a free entry. The result is the position of the
  returned entry in the page (\<open>None\<close> for \<open>nullptr\<close>), the page, the interference
  left and the observations made.
\<close>

type_synonym append_result = "fault + (u32 option \<times> log_page \<times> interference \<times> event list)"

partial_function (option) acquireLoop ::
  "log_params \<Rightarrow> addr \<Rightarrow> u32 \<Rightarrow> u32 \<Rightarrow> u32 \<Rightarrow> u32 \<Rightarrow> interference \<Rightarrow> log_page \<Rightarrow> u32 \<Rightarrow>
   event list \<Rightarrow> append_result option" where
  "acquireLoop cfg this sz entrySize type offset env pg position tr =
     (let endPosition = position + entrySize in
      if MAX_ENTRY_SIZE cfg < endPosition then Some (Inr (None, pg, env, tr))
      else if (this + LOG_HEADER_SIZE cfg + unat position) mod 16 \<noteq> 8 then
        Some (Inl (AssertionFailed ''Position is not 16 byte aligned with offset 8''))
      else
        (let pg1 = interfere env pg in
         case tryAcquire (LOG_ENTRY_SIZE cfg) sz type (entries pg1 position) of
           Inl f \<Rightarrow> Some (Inl f)
         | Inr (res, e') \<Rightarrow>
             (let tr1 = tr @ [CasSize position (mSize (entries pg1 position))] in
              if res \<noteq> 0 then
                acquireLoop cfg this sz entrySize type offset (tl env) pg1 (position + res) tr1
              else
                (let pg2 = pg1\<lparr>entries := (entries pg1)(position := e')\<rparr>;
                     nOffset = push_bit 1 endPosition OR 1
                 in case publishOffset (tl env) pg2 offset nOffset endPosition tr1 of
                      (ok, pg3, env3, tr3) \<Rightarrow>
                        Some (Inr (if ok then Some position else None, pg3, env3, tr3))))))"

text \<open>\<open>LogPage::appendEntry\<close>, lines 59-107, on the page at address \<open>this\<close>.\<close>

definition appendEntry ::
  "log_params \<Rightarrow> addr \<Rightarrow> u32 \<Rightarrow> u32 \<Rightarrow> u32 \<Rightarrow> interference \<Rightarrow> log_page \<Rightarrow> append_result option" where
  "appendEntry P this sz entrySize type env pg =
     (let pg0 = interfere env pg;
          offset = mOffset pg0;
          tr = [LoadOffset offset]
      in if offset AND 1 = 0 then Some (Inr (None, pg0, tl env, tr))
         else acquireLoop P this sz entrySize type offset (tl env) pg0 (drop_bit 1 offset) tr)"

text \<open>\<open>LogPage::append\<close>, lines 50-57.\<close>

definition LogPage_append ::
  "log_params \<Rightarrow> addr \<Rightarrow> u32 \<Rightarrow> u32 \<Rightarrow> interference \<Rightarrow> log_page \<Rightarrow> append_result option" where
  "LogPage_append P this sz type env pg =
     (let entrySize = entrySizeFromSize (LOG_ENTRY_SIZE P) sz in
      if MAX_ENTRY_SIZE P < entrySize then
        Some (Inl (AssertionFailed ''Tried to append more bytes than max''))
      else appendEntry P this sz entrySize type env pg)"

text \<open>
  Modelled from the spec: \<open>LogPage::seal\<close> (Log.hpp) clears the low bit of
  \<open>mOffset\<close>; the used bytes stay.
\<close>

definition LogPage_seal :: "log_page \<Rightarrow> log_page" where
  "LogPage_seal pg = pg\<lparr>mOffset := mOffset pg AND NOT 1\<rparr>"

subsection \<open>Reading the observations\<close>

text \<open>
  The alignment assertion of line 78 as a fault; a probe (the compare-and-swap of
  \<open>tryAcquire\<close> at a position) is aligned when the address of the entry header is 8
  modulo 16, a publish when the position it stores is a multiple of 16.
\<close>

definition misaligned :: fault where
  "misaligned = AssertionFailed ''Position is not 16 byte aligned with offset 8''"

definition probe_aligned :: "log_params \<Rightarrow> addr \<Rightarrow> event \<Rightarrow> bool" where
  "probe_aligned P self e =
     (case e of CasSize pos found \<Rightarrow> (self + LOG_HEADER_SIZE P + unat pos) mod 16 = 8 | _ \<Rightarrow> True)"

definition publish_aligned :: "event \<Rightarrow> bool" where
  "publish_aligned e =
     (case e of CasOffset expected desired found \<Rightarrow> drop_bit 1 desired mod 16 = 0 | _ \<Rightarrow> True)"

text \<open>
  \<open>is_publish nOffset\<close>: a compare-and-swap on \<open>mOffset\<close> towards \<open>nOffset\<close>.
  \<open>seal_observed endPosition\<close>: a compare-and-swap on \<open>mOffset\<close> that found the page
  sealed with a stored position below \<open>endPosition\<close>.
\<close>

definition is_publish :: "u32 \<Rightarrow> event \<Rightarrow> bool" where
  "is_publish nOffset e = (case e of CasOffset expected desired found \<Rightarrow> desired = nOffset | _ \<Rightarrow> False)"

definition seal_observed :: "u32 \<Rightarrow> event \<Rightarrow> bool" where
  "seal_observed endPosition e =
     (case e of CasOffset expected desired found \<Rightarrow> found AND 1 = 0 \<and> drop_bit 1 found < endPosition
      | _ \<Rightarrow> False)"

text \<open>
  The positions \<open>tryAcquire\<close> acquired (it found \<open>mSize = 0\<close>), and the position the
  loop tries next after the observations made: the loaded offset shifted, moved past every
  occupied entry found.
\<close>

fun acquisitions :: "event list \<Rightarrow> u32 list" where
  "acquisitions [] = []"
| "acquisitions (CasSize pos found # tr) = (if found = 0 then pos # acquisitions tr else acquisitions tr)"
| "acquisitions (e # tr) = acquisitions tr"

fun candidate :: "u32 \<Rightarrow> event list \<Rightarrow> u32 \<Rightarrow> u32" where
  "candidate L [] position = position"
| "candidate L (LoadOffset offset # tr) position = candidate L tr (drop_bit 1 offset)"
| "candidate L (CasSize pos found # tr) position =
     candidate L tr (if found = 0 then pos else pos + entrySizeFromSize L (drop_bit 1 found))"
| "candidate L (CasOffset expected desired found # tr) position = candidate L tr position"

text \<open>
  The three ways to \<open>nullptr\<close>: (a) the only observation is a sealed offset; (b) nothing
  was acquired and the next position does not leave room for the entry; (c) a position was
  acquired and the last observation is a sealed offset below the end of the entry.
\<close>

definition sealed_before :: "event list \<Rightarrow> bool" where
  "sealed_before tr = (case tr of [LoadOffset offset] \<Rightarrow> offset AND 1 = 0 | _ \<Rightarrow> False)"

definition no_position :: "log_params \<Rightarrow> u32 \<Rightarrow> event list \<Rightarrow> bool" where
  "no_position P entrySize tr =
     (acquisitions tr = [] \<and> \<not> sealed_before tr \<and>
      MAX_ENTRY_SIZE P < candidate (LOG_ENTRY_SIZE P) tr 0 + entrySize)"

definition seal_raced :: "u32 \<Rightarrow> event list \<Rightarrow> bool" where
  "seal_raced entrySize tr =
     (case acquisitions tr of
        [pos] \<Rightarrow> tr \<noteq> [] \<and> seal_observed (pos + entrySize) (last tr)
      | _ \<Rightarrow> False)"

text \<open>
  Other threads never free or resize an acquired entry (they may seal it); and the entry
  acquired for \<open>sz\<close> bytes is still in the page, with its size.
\<close>

definition keeps_acquired :: "(log_page \<Rightarrow> log_page) \<Rightarrow> bool" where
  "keeps_acquired f =
     (\<forall>pg pos. log_entry.mSize (entries pg pos) \<noteq> 0 \<longrightarrow>
        log_entry.mSize (entries (f pg) pos) \<noteq> 0 \<and>
        drop_bit 1 (log_entry.mSize (entries (f pg) pos)) = drop_bit 1 (log_entry.mSize (entries pg pos)))"

definition abandoned :: "u32 \<Rightarrow> u32 list \<Rightarrow> log_page \<Rightarrow> bool" where
  "abandoned sz ps pg =
     (case ps of
        [pos] \<Rightarrow> log_entry.mSize (entries pg pos) \<noteq> 0 \<and> drop_bit 1 (log_entry.mSize (entries pg pos)) = sz
      | _ \<Rightarrow> False)"

text \<open>
  What the observations say of the memory. \<open>replay\<close> runs a list of observations on
  the page: before each atomic operation the other threads act; the value an observation
  reports must be the one the page holds then (else the replay fails); a compare-and-swap
  of \<open>tryAcquire\<close> that found 0 stores the size field and the type, and one on
  \<open>mOffset\<close> that found the expected value stores the new one. The result is the page
  and the interference left.
\<close>

fun replay :: "u32 \<Rightarrow> u32 \<Rightarrow> interference \<Rightarrow> log_page \<Rightarrow> event list \<Rightarrow> (log_page \<times> interference) option" where
  "replay sz type env pg [] = Some (pg, env)"
| "replay sz type env pg (LoadOffset offset # tr) =
     (let pg1 = interfere env pg in
      if mOffset pg1 = offset then replay sz type (tl env) pg1 tr else None)"
| "replay sz type env pg (CasSize pos found # tr) =
     (let pg1 = interfere env pg in
      if mSize (entries pg1 pos) = found then
        replay sz type (tl env)
          (if found = 0 then
             pg1\<lparr>entries := (entries pg1)(pos := (entries pg1 pos)\<lparr>mSize := push_bit 1 sz OR 1, mType := type\<rparr>)\<rparr>
           else pg1) tr
      else None)"
| "replay sz type env pg (CasOffset expected desired found # tr) =
     (let pg1 = interfere env pg in
      if mOffset pg1 = found then
        replay sz type (tl env) (if found = expected then pg1\<lparr>mOffset := desired\<rparr> else pg1) tr
      else None)"

text \<open>
  The order of the atomic operations of \<open>appendEntry\<close>, lines 59-107, as the values
  found decide it. \<open>publishing\<close> is the loop of lines 88-103: while the offset is below
  the new one, a compare-and-swap from the last offset seen to the new one; the loop ends
  when it succeeds or finds the page sealed. \<open>probing\<close> is the loop of lines 68-85: a
  probe at the current position as long as the entry fits; a free entry ends the probing
  and the publishing starts, an occupied one moves the position by the size found.
  \<open>protocol\<close>: first the offset is loaded; a sealed offset ends the run, otherwise the
  probing starts at the position the offset holds.
\<close>

fun publishing :: "u32 \<Rightarrow> u32 \<Rightarrow> event list \<Rightarrow> bool" where
  "publishing offset nOffset [] = (\<not> offset < nOffset)"
| "publishing offset nOffset (CasOffset expected desired found # tr) =
     (offset < nOffset \<and> expected = offset \<and> desired = nOffset \<and>
      (if found = offset \<or> found AND 1 = 0 then tr = [] else publishing found nOffset tr))"
| "publishing offset nOffset (e # tr) = False"

fun probing :: "log_params \<Rightarrow> u32 \<Rightarrow> u32 \<Rightarrow> u32 \<Rightarrow> event list \<Rightarrow> bool" where
  "probing P entrySize offset position [] = (MAX_ENTRY_SIZE P < position + entrySize)"
| "probing P entrySize offset position (CasSize pos found # tr) =
     (pos = position \<and> \<not> MAX_ENTRY_SIZE P < position + entrySize \<and>
      (if found = 0 then publishing offset (push_bit 1 (position + entrySize) OR 1) tr
       else probing P entrySize offset
              (position + entrySizeFromSize (LOG_ENTRY_SIZE P) (drop_bit 1 found)) tr))"
| "probing P entrySize offset position (e # tr) = False"

definition protocol :: "log_params \<Rightarrow> u32 \<Rightarrow> event list \<Rightarrow> bool" where
  "protocol P entrySize tr =
     (case tr of
        LoadOffset offset # rest \<Rightarrow>
          if offset AND 1 = 0 then rest = [] else probing P entrySize offset (drop_bit 1 offset) rest
      | _ \<Rightarrow> False)"

subsection \<open>A small log page\<close>

text \<open>
  Pages with a data area of 128 bytes, headers of 8 and 24 bytes; a fresh page, and one
  where another thread has acquired 10 bytes at position 0 and not yet raised the offset.
\<close>

definition small_log :: log_params where
  "small_log = \<lparr>MAX_ENTRY_SIZE = 128, LOG_ENTRY_SIZE = 8, LOG_HEADER_SIZE = 24\<rparr>"

definition fresh_page :: log_page where
  "fresh_page = \<lparr>mOffset = 1, mNext = None, entries = (\<lambda>pos. \<lparr>mSize = 0, mType = 0\<rparr>)\<rparr>"

definition busy_page :: log_page where
  "busy_page = fresh_page\<lparr>entries := (entries fresh_page)(0 := \<lparr>mSize = 21, mType = 7\<rparr>)\<rparr>"

section \<open>The logs (src/util/Log.cpp)\<close>

text \<open>
  What \<open>BaseLogImpl\<close> holds and reaches: the memory of the log pages by address, the
  free pages of the \<open>PageManager\<close> (a stack: \<open>alloc\<close> pops, \<open>free\<close> pushes), and
  the closures handed to \<open>crossbow::allocator::invoke\<close>, which runs them once no thread
  can still see the pages. \<open>freePage(begin, end)\<close> (lines 114-124) hands over one
  closure; \<open>freePage_closure\<close> is what the closure does when it runs: it walks from
  \<open>begin\<close> along \<open>next\<close> and frees every page until it reaches \<open>end\<close>.
\<close>

record base_log =
  heap :: "addr \<Rightarrow> log_page"
  pageManager :: "addr list"
  deferred :: "(addr option \<times> addr option) list"

definition freePage :: "addr option \<Rightarrow> addr option \<Rightarrow> 'a base_log_scheme \<Rightarrow> 'a base_log_scheme" where
  "freePage begin end s = s\<lparr>deferred := deferred s @ [(begin, end)]\<rparr>"

partial_function (option) freePage_closure ::
  "(addr \<Rightarrow> log_page) \<Rightarrow> addr list \<Rightarrow> addr option \<Rightarrow> addr option \<Rightarrow> (fault + addr list) option" where
  "freePage_closure h pm page end =
     (if page = end then Some (Inr pm)
      else case page of
        None \<Rightarrow> Some (Inl NullDereference)
      | Some p \<Rightarrow> freePage_closure h (p # pm) (mNext (h p)) end)"

text \<open>
  \<open>segment h a e ps\<close>: following \<open>next\<close> from the pointer \<open>a\<close> one walks through
  exactly the pages \<open>ps\<close> and then reaches \<open>e\<close>.
\<close>

fun segment :: "(addr \<Rightarrow> log_page) \<Rightarrow> addr option \<Rightarrow> addr option \<Rightarrow> addr list \<Rightarrow> bool" where
  "segment h a e [] = (a = e)"
| "segment h a e (p # ps) = (a = Some p \<and> a \<noteq> e \<and> segment h (mNext (h p)) e ps)"

subsection \<open>UnorderedLogImpl\<close>

text \<open>
  The head pair (write head, append head), the tail and the page counter.
  \<open>UnorderedLogImpl::erase\<close>, lines 167-188; the loop of lines 182-184 counts the pages
  from \<open>next\<close> to \<open>end\<close>.
\<close>

record unordered_log = base_log +
  mHead :: "addr option \<times> addr option"
  mTail :: "addr option"
  mPages :: u64

partial_function (option) countPages ::
  "(addr \<Rightarrow> log_page) \<Rightarrow> addr option \<Rightarrow> addr option \<Rightarrow> nat \<Rightarrow> (fault + nat) option" where
  "countPages h page end pages =
     (if page = end then Some (Inr pages)
      else case page of
        None \<Rightarrow> Some (Inl NullDereference)
      | Some p \<Rightarrow> countPages h (mNext (h p)) end (pages + 1))"

definition erase :: "unordered_log \<Rightarrow> addr option \<Rightarrow> addr option \<Rightarrow> (fault + unordered_log) option" where
  "erase s begin end =
     (case begin of
        None \<Rightarrow> Some (Inl (AssertionFailed ''Begin page must not be null''))
      | Some b \<Rightarrow>
          if begin = end then Some (Inr s)
          else
            (let s1 = (if end = None then s\<lparr>mTail := begin\<rparr> else s);
                 next = mNext (heap s1 b);
                 s2 = s1\<lparr>heap := (heap s1)(b := (heap s1 b)\<lparr>mNext := end\<rparr>)\<rparr>
             in if next = end then Some (Inr s2)
                else
                  (case countPages (heap s2) next end 0 of
                     None \<Rightarrow> None
                   | Some (Inl f) \<Rightarrow> Some (Inl f)
                   | Some (Inr pages) \<Rightarrow>
                       Some (Inr (freePage next end (s2\<lparr>mPages := mPages s2 - of_nat pages\<rparr>))))))"

text \<open>Three linked pages 10, 20, 30, and an unordered log over them.\<close>

definition three_pages :: "addr \<Rightarrow> log_page" where
  "three_pages = (\<lambda>p. fresh_page)(10 := fresh_page\<lparr>mNext := Some 20\<rparr>, 20 := fresh_page\<lparr>mNext := Some 30\<rparr>)"

definition toy_unordered :: unordered_log where
  "toy_unordered = \<lparr>heap = three_pages, pageManager = [], deferred = [],
     mHead = (Some 10, None), mTail = Some 30, mPages = 3\<rparr>"

subsection \<open>OrderedLogImpl\<close>

text \<open>
  The write head, the sealed head and the tail; a \<open>LogPosition\<close> is a page pointer and
  an offset. \<open>OrderedLogImpl::truncateLog\<close>, lines 275-286: the compare-and-swap on the
  tail is one atomic step.
\<close>

record ordered_log = base_log +
  mHead :: "addr option"
  mSealedHead :: "addr option \<times> u32"
  mTail :: "addr option \<times> u32"

definition truncateLog ::
  "ordered_log \<Rightarrow> addr option \<times> u32 \<Rightarrow> addr option \<times> u32 \<Rightarrow> bool \<times> ordered_log" where
  "truncateLog s oldTail newTail =
     (if mTail s \<noteq> oldTail then (False, s)
      else
        (let s1 = s\<lparr>mTail := newTail\<rparr> in
         if fst oldTail \<noteq> fst newTail then (True, freePage (fst oldTail) (fst newTail) s1)
         else (True, s1)))"

text \<open>An ordered log over the three pages, with its tail on page 10.\<close>

definition toy_ordered :: ordered_log where
  "toy_ordered = \<lparr>heap = three_pages, pageManager = [], deferred = [],
     mHead = Some 30, mSealedHead = (Some 30, 0), mTail = (Some 10, 0)\<rparr>"

subsection \<open>The sealed head of OrderedLogImpl\<close>

text \<open>
  Modelled from the spec: \<open>LogEntry::seal\<close>, \<open>LogEntry::sizeAndSealed\<close> and
  \<open>LogPage::offsetAndSealed\<close> are declared in Log.hpp, which is not among the sources.
  By the spec the size field holds \<open>(payloadSize << 1) | acquiredBit\<close> and the seal
  clears the acquired bit; the page offset holds \<open>(bytesUsed << 1) | bit\<close> with bit 0
  once the page is sealed. So an entry reads as sealed when its low bit is 0, a free entry
  (size field 0) included.
\<close>

definition LogEntry_seal :: "log_entry \<Rightarrow> log_entry" where
  "LogEntry_seal e = e\<lparr>mSize := mSize e AND NOT 1\<rparr>"

definition sizeAndSealed :: "log_entry \<Rightarrow> u32 \<times> bool" where
  "sizeAndSealed e = (drop_bit 1 (mSize e), mSize e AND 1 = 0)"

definition offsetAndSealed :: "log_page \<Rightarrow> u32 \<times> bool" where
  "offsetAndSealed pg = (drop_bit 1 (mOffset pg), mOffset pg AND 1 = 0)"

text \<open>
  Modelled from the spec: \<open>BaseLogImpl::acquirePage\<close> (Log.hpp) takes a page from the
  PageManager, null when none is left; by the spec pages are born unsealed and empty, with
  no next page and every entry free. \<open>freeEmptyPageNow\<close>, lines 109-112, zeroes the
  header and gives the page back.
\<close>

definition acquirePage :: "'a base_log_scheme \<Rightarrow> addr option \<times> 'a base_log_scheme" where
  "acquirePage s =
     (case pageManager s of
        [] \<Rightarrow> (None, s)
      | page # free \<Rightarrow>
          (Some page,
           s\<lparr>pageManager := free,
             heap := (heap s)(page := \<lparr>mOffset = 1, mNext = None,
                                       entries = (\<lambda>pos. \<lparr>mSize = 0, mType = 0\<rparr>)\<rparr>)\<rparr>))"

definition freeEmptyPageNow :: "addr \<Rightarrow> 'a base_log_scheme \<Rightarrow> 'a base_log_scheme" where
  "freeEmptyPageNow page s =
     s\<lparr>heap := (heap s)(page := (heap s page)\<lparr>mOffset := 0, mNext := None\<rparr>),
       pageManager := page # pageManager s\<rparr>"

text \<open>
  A \<open>LogPosition\<close> is a page pointer and an offset. A pointer to an entry is the page
  and the position of the entry in it (\<open>page->data() + offset\<close>); \<open>None\<close> is the
  null pointer. The local variables of \<open>advanceSealedHead\<close> are \<open>sealedHead\<close>,
  \<open>size\<close>, \<open>sealed\<close> and \<open>currentEntry\<close>.
\<close>

type_synonym LogPosition = "addr option \<times> u32"

type_synonym entry_ptr = "(addr \<times> u32) option"

type_synonym cursor = "LogPosition \<times> u32 \<times> bool \<times> entry_ptr"

text \<open>
  \<open>OrderedLogImpl::advanceSealedHead\<close>, lines 348-453, read on the memory as it is
  when the function is called (no other thread writes meanwhile). \<open>advanceInner\<close> is
  the loop \<open>while (sealed)\<close> of lines 365-403; it returns the local variables with
  which the loop is left. Reading through a null pointer and the failing assertion of
  line 379 are faults.
\<close>

partial_function (option) advanceInner ::
  "log_params \<Rightarrow> (addr \<Rightarrow> log_page) \<Rightarrow> LogPosition \<Rightarrow> u32 \<Rightarrow> bool \<Rightarrow> entry_ptr \<Rightarrow>
   (fault + cursor) option" where
  "advanceInner cfg h sealedHead sz sealed currentEntry =
     (if \<not> sealed then Some (Inr (sealedHead, sz, sealed, currentEntry))
      else if sz = 0 then
        (case fst sealedHead of
           None \<Rightarrow> Some (Inl NullDereference)
         | Some page \<Rightarrow>
             (case offsetAndSealed (h page) of
                (pageOffset, pageSealed) \<Rightarrow>
                  if \<not> pageSealed then Some (Inr (sealedHead, sz, sealed, currentEntry))
                  else if snd sealedHead < pageOffset then
                    (case currentEntry of
                       None \<Rightarrow> Some (Inl NullDereference)
                     | Some (p, pos) \<Rightarrow>
                         (case sizeAndSealed (entries (h p) pos) of
                            (sz', sealed') \<Rightarrow>
                              if sz' = 0 then
                                Some (Inl (AssertionFailed
                                  ''Entry was not acquired despite being in valid page region''))
                              else advanceInner cfg h sealedHead sz' sealed' currentEntry))
                  else
                    (case mNext (h page) of
                       None \<Rightarrow> Some (Inr (sealedHead, sz, sealed, currentEntry))
                     | Some next \<Rightarrow>
                         (case sizeAndSealed (entries (h next) 0) of
                            (sz', sealed') \<Rightarrow>
                              advanceInner cfg h (Some next, 0) sz' sealed' (Some (next, 0))))))
      else
        (let offset = snd sealedHead + entrySizeFromSize (LOG_ENTRY_SIZE cfg) sz in
         if offset \<le> MAX_ENTRY_SIZE cfg - LOG_ENTRY_SIZE cfg then
           (case fst sealedHead of
              None \<Rightarrow> Some (Inl NullDereference)
            | Some page \<Rightarrow>
                (case sizeAndSealed (entries (h page) offset) of
                   (sz', sealed') \<Rightarrow>
                     advanceInner cfg h (fst sealedHead, offset) sz' sealed' (Some (page, offset))))
         else advanceInner cfg h (fst sealedHead, offset) 0 sealed currentEntry))"

text \<open>
  Lines 412-451, what follows the successful compare-and-swap on \<open>mSealedHead\<close>: the
  entry at the new sealed head is read again and the page is looked at again. The result
  \<open>None\<close> is a \<open>return\<close>; otherwise the outer loop goes round once more with the
  local variables given.
\<close>

definition recheck ::
  "log_params \<Rightarrow> (addr \<Rightarrow> log_page) \<Rightarrow> LogPosition \<Rightarrow> entry_ptr \<Rightarrow> fault + cursor option" where
  "recheck cfg h sealedHead currentEntry =
     (case (if snd sealedHead \<le> MAX_ENTRY_SIZE cfg - LOG_ENTRY_SIZE cfg then
              (case currentEntry of
                 None \<Rightarrow> Inl NullDereference
               | Some (p, pos) \<Rightarrow> Inr (sizeAndSealed (entries (h p) pos)))
            else Inr (0, True)) of
        Inl f \<Rightarrow> Inl f
      | Inr (sz, sealed) \<Rightarrow>
          (case (if sz = 0 then
                   (case fst sealedHead of
                      None \<Rightarrow> Inl NullDereference
                    | Some page \<Rightarrow>
                        (case offsetAndSealed (h page) of
                           (pageOffset, pageSealed) \<Rightarrow>
                             if \<not> pageSealed then Inr None
                             else if snd sealedHead < pageOffset then
                               (case currentEntry of
                                  None \<Rightarrow> Inl NullDereference
                                | Some (p, pos) \<Rightarrow>
                                    (case sizeAndSealed (entries (h p) pos) of
                                       (sz', sealed') \<Rightarrow>
                                         if sz' = 0 then
                                           Inl (AssertionFailed
                                             ''Entry was not acquired despite being in valid page region'')
                                         else Inr (Some (sealedHead, sz', sealed', currentEntry))))
                             else
                               (case mNext (h page) of
                                  None \<Rightarrow> Inr None
                                | Some next \<Rightarrow>
                                    (case sizeAndSealed (entries (h next) 0) of
                                       (sz', sealed') \<Rightarrow>
                                         Inr (Some ((Some next, 0), sz', sealed', Some (next, 0)))))))
                 else Inr (Some (sealedHead, sz, sealed, currentEntry))) of
             Inl f \<Rightarrow> Inl f
           | Inr None \<Rightarrow> Inr None
           | Inr (Some (sealedHead', sz', sealed', currentEntry')) \<Rightarrow>
               if \<not> sealed' then Inr None
               else Inr (Some (sealedHead', sz', sealed', currentEntry'))))"

text \<open>
  The outer loop \<open>while (true)\<close>, lines 364-452. The compare-and-swap of line 407
  fails exactly when \<open>mSealedHead\<close> is no longer \<open>oldSealedHead\<close>; then the
  function returns and the log is unchanged.
\<close>

partial_function (option) advanceOuter ::
  "log_params \<Rightarrow> ordered_log \<Rightarrow> LogPosition \<Rightarrow> LogPosition \<Rightarrow> u32 \<Rightarrow> bool \<Rightarrow> entry_ptr \<Rightarrow>
   (fault + ordered_log) option" where
  "advanceOuter cfg s oldSealedHead sealedHead sz sealed currentEntry =
     (case advanceInner cfg (heap s) sealedHead sz sealed currentEntry of
        None \<Rightarrow> None
      | Some (Inl f) \<Rightarrow> Some (Inl f)
      | Some (Inr (sealedHead1, sz1, sealed1, currentEntry1)) \<Rightarrow>
          if mSealedHead s \<noteq> oldSealedHead then Some (Inr s)
          else
            (let s1 = s\<lparr>mSealedHead := sealedHead1\<rparr> in
             case recheck cfg (heap s1) sealedHead1 currentEntry1 of
               Inl f \<Rightarrow> Some (Inl f)
             | Inr None \<Rightarrow> Some (Inr s1)
             | Inr (Some (sealedHead2, sz2, sealed2, currentEntry2)) \<Rightarrow>
                 advanceOuter cfg s1 sealedHead1 sealedHead2 sz2 sealed2 currentEntry2))"

text \<open>
  Lines 348-362: the entry at the old sealed head is read when the offset leaves room for
  an entry header, and the loops start.
\<close>

definition advanceSealedHead ::
  "log_params \<Rightarrow> ordered_log \<Rightarrow> LogPosition \<Rightarrow> (fault + ordered_log) option" where
  "advanceSealedHead cfg s oldSealedHead =
     (let sealedHead = oldSealedHead in
      if snd sealedHead \<le> MAX_ENTRY_SIZE cfg - LOG_ENTRY_SIZE cfg then
        (case fst sealedHead of
           None \<Rightarrow> Some (Inl NullDereference)
         | Some page \<Rightarrow>
             (case sizeAndSealed (entries (heap s page) (snd sealedHead)) of
                (sz, sealed) \<Rightarrow>
                  advanceOuter cfg s oldSealedHead sealedHead sz sealed
                    (Some (page, snd sealedHead))))
      else advanceOuter cfg s oldSealedHead sealedHead 0 True None)"

text \<open>
  \<open>OrderedLogImpl::seal\<close>, lines 264-273: the entry is sealed; when the sealed head
  points to it, the sealed head is advanced.
\<close>

definition seal :: "log_params \<Rightarrow> ordered_log \<Rightarrow> entry_ptr \<Rightarrow> (fault + ordered_log) option" where
  "seal cfg s entry =
     (case entry of
        None \<Rightarrow> Some (Inl NullDereference)
      | Some (p, pos) \<Rightarrow>
          (let s1 = s\<lparr>heap := (heap s)(p := (heap s p)
                       \<lparr>entries := (entries (heap s p))(pos := LogEntry_seal (entries (heap s p) pos))\<rparr>)\<rparr>;
               sealedHead = mSealedHead s1
           in case fst sealedHead of
                None \<Rightarrow> Some (Inl NullDereference)
              | Some page \<Rightarrow>
                  if (page, snd sealedHead) \<noteq> (p, pos) then Some (Inr s1)
                  else advanceSealedHead cfg s1 sealedHead))"

text \<open>
  \<open>OrderedLogImpl::createPage\<close>, lines 305-346. The result is the returned page and
  the log. The two compare-and-swaps that can fail (on \<open>mHead\<close>, line 311, and on the
  \<open>next\<close> of the old head, line 329) are written with both outcomes; the one of line
  337 may fail silently.
\<close>

definition createPage ::
  "log_params \<Rightarrow> ordered_log \<Rightarrow> addr option \<Rightarrow> (fault + (addr option \<times> ordered_log)) option" where
  "createPage cfg s oldHead =
     (case oldHead of
        None \<Rightarrow> Some (Inl NullDereference)
      | Some oh \<Rightarrow>
          (let next = mNext (heap s oh) in
           if next \<noteq> None then
             (if mHead s \<noteq> oldHead then Some (Inr (mHead s, s))
              else Some (Inr (next, s\<lparr>mHead := next\<rparr>)))
           else
             (let s1 = s\<lparr>heap := (heap s)(oh := LogPage_seal (heap s oh))\<rparr> in
              case acquirePage s1 of
                (None, s2) \<Rightarrow> Some (Inr (None, s2))
              | (Some np, s2) \<Rightarrow>
                  if mNext (heap s2 oh) \<noteq> next then
                    Some (Inr (mNext (heap s2 oh), freeEmptyPageNow np s2))
                  else
                    (let s3 = s2\<lparr>heap := (heap s2)(oh := (heap s2 oh)\<lparr>mNext := Some np\<rparr>)\<rparr>;
                         s4 = (if mHead s3 = oldHead then s3\<lparr>mHead := Some np\<rparr> else s3);
                         sealedHead = mSealedHead s4
                     in if fst sealedHead = oldHead \<and>
                           snd sealedHead = drop_bit 1 (mOffset (heap s4 oh)) then
                          (case advanceSealedHead cfg s4 sealedHead of
                             None \<Rightarrow> None
                           | Some (Inl f) \<Rightarrow> Some (Inl f)
                           | Some (Inr s5) \<Rightarrow> Some (Inr (Some np, s5)))
                        else Some (Inr (Some np, s4))))))"

text \<open>
  \<open>OrderedLogImpl::appendEntry\<close>, lines 288-303: the loop tries the head page, with
  \<open>LogPage::appendEntry\<close> run alone (empty interference), and creates a page when the
  entry does not fit. \<open>Log_append\<close> is \<open>Log::append\<close>, lines 468-477, which
  computes the entry size and refuses one that is larger than a page.
\<close>

partial_function (option) appendLoop ::
  "log_params \<Rightarrow> u32 \<Rightarrow> u32 \<Rightarrow> u32 \<Rightarrow> ordered_log \<Rightarrow> addr option \<Rightarrow>
   (fault + (entry_ptr \<times> ordered_log)) option" where
  "appendLoop cfg sz entrySize type s head =
     (case head of
        None \<Rightarrow> Some (Inr (None, s))
      | Some h \<Rightarrow>
          (case appendEntry cfg h sz entrySize type [] (heap s h) of
             None \<Rightarrow> None
           | Some (Inl f) \<Rightarrow> Some (Inl f)
           | Some (Inr (entry, pg, env, tr)) \<Rightarrow>
               (let s1 = s\<lparr>heap := (heap s)(h := pg)\<rparr> in
                case entry of
                  Some pos \<Rightarrow> Some (Inr (Some (h, pos), s1))
                | None \<Rightarrow>
                    (case createPage cfg s1 head of
                       None \<Rightarrow> None
                     | Some (Inl f) \<Rightarrow> Some (Inl f)
                     | Some (Inr (head', s2)) \<Rightarrow> appendLoop cfg sz entrySize type s2 head'))))"

definition OrderedLog_appendEntry ::
  "log_params \<Rightarrow> u32 \<Rightarrow> u32 \<Rightarrow> u32 \<Rightarrow> ordered_log \<Rightarrow> (fault + (entry_ptr \<times> ordered_log)) option" where
  "OrderedLog_appendEntry cfg sz entrySize type s = appendLoop cfg sz entrySize type s (mHead s)"

definition Log_append ::
  "log_params \<Rightarrow> u32 \<Rightarrow> u32 \<Rightarrow> ordered_log \<Rightarrow> (fault + (entry_ptr \<times> ordered_log)) option" where
  "Log_append cfg sz type s =
     (let entrySize = entrySizeFromSize (LOG_ENTRY_SIZE cfg) sz in
      if MAX_ENTRY_SIZE cfg < entrySize then
        Some (Inl (AssertionFailed ''Tried to append more bytes than max''))
      else OrderedLog_appendEntry cfg sz entrySize type s)"

text \<open>
  The constructor, lines 251-262: the three pointers start on one new page;
  \<open>std::terminate\<close> when the PageManager has none.
\<close>

definition OrderedLog_init :: "(addr \<Rightarrow> log_page) \<Rightarrow> addr list \<Rightarrow> fault + ordered_log" where
  "OrderedLog_init h pm =
     (case acquirePage \<lparr>heap = h, pageManager = pm, deferred = []\<rparr> of
        (None, b) \<Rightarrow> Inl Terminated
      | (Some page, b) \<Rightarrow>
          Inr \<lparr>heap = heap b, pageManager = pageManager b, deferred = deferred b,
               mHead = Some page, mSealedHead = (Some page, 0), mTail = (Some page, 0)\<rparr>)"

text \<open>
  The operations on an ordered log, run one after the other: an append of a payload size
  and a type, the seal of the entry at a page and position, and \<open>createPage\<close> on the
  current head. A run stops at the first operation that faults.
\<close>

datatype log_op = Append u32 u32 | Seal "addr \<times> u32" | CreatePage

definition step :: "log_params \<Rightarrow> log_op \<Rightarrow> ordered_log \<Rightarrow> (fault + ordered_log) option" where
  "step cfg op s =
     (case op of
        Append sz type \<Rightarrow> map_option (map_sum id snd) (Log_append cfg sz type s)
      | Seal entry \<Rightarrow> seal cfg s (Some entry)
      | CreatePage \<Rightarrow> map_option (map_sum id snd) (createPage cfg s (mHead s)))"

fun run :: "log_params \<Rightarrow> log_op list \<Rightarrow> ordered_log \<Rightarrow> (fault + ordered_log) option" where
  "run cfg [] s = Some (Inr s)"
| "run cfg (op # ops) s =
     (case step cfg op s of
        Some (Inr s') \<Rightarrow> run cfg ops s'
      | other \<Rightarrow> other)"

subsection \<open>What the sealed head has passed\<close>

text \<open>
  The constants the properties need: an entry header is at most 16 bytes (one alignment
  unit) and not empty, a page holds at least 16 bytes, and twice the page size fits into
  32 bits, so that \<open>(bytesUsed << 1) | 1\<close> loses nothing.
\<close>

definition wf_params :: "log_params \<Rightarrow> bool" where
  "wf_params cfg =
     (0 < LOG_ENTRY_SIZE cfg \<and> LOG_ENTRY_SIZE cfg \<le> 16 \<and> 16 \<le> MAX_ENTRY_SIZE cfg \<and>
      MAX_ENTRY_SIZE cfg < 2 ^ 31)"

text \<open>
  The bytes used in a page and its seal bit, as \<open>mOffset\<close> holds them; the seal bit
  of an entry; and the position just after the entry at \<open>x\<close>.
\<close>

definition used :: "log_page \<Rightarrow> u32" where
  "used pg = drop_bit 1 (mOffset pg)"

definition page_sealed :: "log_page \<Rightarrow> bool" where
  "page_sealed pg = (mOffset pg AND 1 = 0)"

definition entry_sealed :: "log_entry \<Rightarrow> bool" where
  "entry_sealed e = (mSize e AND 1 = 0)"

definition entry_end :: "u32 \<Rightarrow> (u32 \<Rightarrow> log_entry) \<Rightarrow> u32 \<Rightarrow> u32" where
  "entry_end L ents x = x + entrySizeFromSize L (drop_bit 1 (mSize (ents x)))"

text \<open>
  \<open>entries_from L ents pos xs e\<close>: from position \<open>pos\<close> to position \<open>e\<close> the
  page holds exactly the entries at the positions \<open>xs\<close>, one after the other, each
  acquired (its payload size is not 0) and none wrapping round.
\<close>

fun entries_from :: "u32 \<Rightarrow> (u32 \<Rightarrow> log_entry) \<Rightarrow> u32 \<Rightarrow> u32 list \<Rightarrow> u32 \<Rightarrow> bool" where
  "entries_from L ents pos [] e = (pos = e)"
| "entries_from L ents pos (x # xs) e =
     (x = pos \<and> drop_bit 1 (mSize (ents x)) \<noteq> 0 \<and> x < entry_end L ents x \<and>
      entry_end L ents x \<le> e \<and> entries_from L ents (entry_end L ents x) xs e)"

text \<open>
  A page is in order when its used bytes fit and nothing is acquired from the used bytes
  on. \<open>layout_from\<close>: from \<open>pos\<close> to the used bytes the page is a sequence of
  entries. \<open>sealed_upto\<close>: from 0 to \<open>pos\<close> the page is a sequence of entries and
  all of them are sealed.
\<close>

definition page_ok :: "log_params \<Rightarrow> log_page \<Rightarrow> bool" where
  "page_ok cfg pg =
     (used pg \<le> MAX_ENTRY_SIZE cfg \<and> (\<forall>pos. used pg \<le> pos \<longrightarrow> mSize (entries pg pos) = 0))"

definition layout_from :: "log_params \<Rightarrow> log_page \<Rightarrow> u32 \<Rightarrow> bool" where
  "layout_from cfg pg pos = (\<exists>ys. entries_from (LOG_ENTRY_SIZE cfg) (entries pg) pos ys (used pg))"

definition sealed_upto :: "log_params \<Rightarrow> log_page \<Rightarrow> u32 \<Rightarrow> bool" where
  "sealed_upto cfg pg pos =
     (\<exists>xs. entries_from (LOG_ENTRY_SIZE cfg) (entries pg) 0 xs pos \<and>
           list_all (\<lambda>x. entry_sealed (entries pg x)) xs)"

text \<open>
  The sealed head is at position \<open>pos\<close> of the \<open>k\<close>-th page of the chain
  \<open>ps\<close>. \<open>passed\<close>: every entry before it in chain order is sealed, that is, every
  earlier page is sealed and its entries up to the stored offset are sealed, and the
  entries of its own page before \<open>pos\<close> are sealed; what follows is laid out as
  entries. \<open>blocked\<close>: it rests on an unsealed entry, or at the stored offset of the
  last page.
\<close>

definition passed :: "log_params \<Rightarrow> (addr \<Rightarrow> log_page) \<Rightarrow> addr list \<Rightarrow> nat \<Rightarrow> u32 \<Rightarrow> bool" where
  "passed cfg h ps k pos =
     ((\<forall>j<k. page_sealed (h (ps ! j)) \<and> sealed_upto cfg (h (ps ! j)) (used (h (ps ! j)))) \<and>
      sealed_upto cfg (h (ps ! k)) pos \<and> layout_from cfg (h (ps ! k)) pos \<and>
      (\<forall>j. k < j \<and> j < length ps \<longrightarrow> layout_from cfg (h (ps ! j)) 0))"

definition blocked :: "(addr \<Rightarrow> log_page) \<Rightarrow> addr list \<Rightarrow> nat \<Rightarrow> u32 \<Rightarrow> bool" where
  "blocked h ps k pos =
     (if pos = used (h (ps ! k)) then Suc k = length ps
      else \<not> entry_sealed (entries (h (ps ! k)) pos))"

text \<open>
  The pages of a chain are different, each is in order and all but the last are sealed.
  \<open>chain_inv\<close>: the chain from the tail ends at the head, the sealed head is on its
  \<open>k\<close>-th page and has passed only sealed entries, and the free pages are different
  from each other and from the pages of the chain. \<open>log_inv\<close> adds that the sealed
  head is blocked.
\<close>

definition pages_ok :: "log_params \<Rightarrow> (addr \<Rightarrow> log_page) \<Rightarrow> addr list \<Rightarrow> bool" where
  "pages_ok cfg h ps =
     (distinct ps \<and>
      (\<forall>j<length ps. page_ok cfg (h (ps ! j)) \<and> (Suc j < length ps \<longrightarrow> page_sealed (h (ps ! j)))))"

definition chain_inv :: "log_params \<Rightarrow> ordered_log \<Rightarrow> addr list \<Rightarrow> nat \<Rightarrow> bool" where
  "chain_inv cfg s ps k =
     (segment (heap s) (fst (mTail s)) None ps \<and> k < length ps \<and>
      mHead s = Some (last ps) \<and> fst (mSealedHead s) = Some (ps ! k) \<and>
      pages_ok cfg (heap s) ps \<and>
      passed cfg (heap s) ps k (snd (mSealedHead s)) \<and>
      distinct (pageManager s) \<and> set ps \<inter> set (pageManager s) = {})"

definition log_inv :: "log_params \<Rightarrow> ordered_log \<Rightarrow> addr list \<Rightarrow> nat \<Rightarrow> bool" where
  "log_inv cfg s ps k =
     (segment (heap s) (fst (mTail s)) None ps \<and> k < length ps \<and>
      mHead s = Some (last ps) \<and> fst (mSealedHead s) = Some (ps ! k) \<and>
      pages_ok cfg (heap s) ps \<and>
      passed cfg (heap s) ps k (snd (mSealedHead s)) \<and>
      blocked (heap s) ps k (snd (mSealedHead s)) \<and>
      distinct (pageManager s) \<and> set ps \<inter> set (pageManager s) = {})"

text \<open>
  \<open>chain_position s ps k\<close>: \<open>ps\<close> are the pages of the log from the tail on, and
  the sealed head is on the \<open>k\<close>-th of them. \<open>pos_le\<close> is the chain order of two
  positions given as the index of the page and the offset.
\<close>

definition chain_position :: "ordered_log \<Rightarrow> addr list \<Rightarrow> nat \<Rightarrow> bool" where
  "chain_position s ps k =
     (segment (heap s) (fst (mTail s)) None ps \<and> distinct ps \<and> k < length ps \<and>
      fst (mSealedHead s) = Some (ps ! k))"

definition pos_le :: "nat \<times> u32 \<Rightarrow> nat \<times> u32 \<Rightarrow> bool" where
  "pos_le a b = (fst a < fst b \<or> (fst a = fst b \<and> snd a \<le> snd b))"

text \<open>
  The local variables of \<open>advanceSealedHead\<close> agree with the memory at the cursor
  (\<open>consistent\<close>); the cursor is where the inner loop is left for good
  (\<open>stopped\<close>); the inner loop, started on a page, is left on this page
  (\<open>stops_in_page\<close>) or goes on at position 0 of the next page, and then the page is
  sealed and all its entries up to the stored offset are sealed (\<open>crosses_page\<close>).
\<close>

definition consistent ::
  "log_params \<Rightarrow> (addr \<Rightarrow> log_page) \<Rightarrow> addr \<Rightarrow> u32 \<Rightarrow> u32 \<Rightarrow> bool \<Rightarrow> entry_ptr \<Rightarrow> bool" where
  "consistent cfg h p pos sz sealed cur =
     (if pos \<le> MAX_ENTRY_SIZE cfg - LOG_ENTRY_SIZE cfg then
        (sz, sealed) = sizeAndSealed (entries (h p) pos) \<and> cur = Some (p, pos)
      else sz = 0 \<and> sealed)"

definition stopped :: "(addr \<Rightarrow> log_page) \<Rightarrow> addr \<Rightarrow> u32 \<Rightarrow> u32 \<Rightarrow> bool \<Rightarrow> bool" where
  "stopped h p pos sz sealed =
     (if pos = used (h p) then sz = 0 \<and> sealed \<and> (\<not> page_sealed (h p) \<or> mNext (h p) = None)
      else sz \<noteq> 0 \<and> \<not> sealed \<and> \<not> entry_sealed (entries (h p) pos))"

definition stops_in_page ::
  "log_params \<Rightarrow> (addr \<Rightarrow> log_page) \<Rightarrow> addr \<Rightarrow> u32 \<Rightarrow> (fault + cursor) option \<Rightarrow> bool" where
  "stops_in_page cfg h p pos r =
     (\<exists>pos' sz' sealed' cur'.
        r = Some (Inr ((Some p, pos'), sz', sealed', cur')) \<and> pos \<le> pos' \<and>
        sealed_upto cfg (h p) pos' \<and> layout_from cfg (h p) pos' \<and>
        consistent cfg h p pos' sz' sealed' cur' \<and> stopped h p pos' sz' sealed')"

definition crosses_page ::
  "log_params \<Rightarrow> (addr \<Rightarrow> log_page) \<Rightarrow> addr \<Rightarrow> (fault + cursor) option \<Rightarrow> bool" where
  "crosses_page cfg h p r =
     (page_sealed (h p) \<and> sealed_upto cfg (h p) (used (h p)) \<and>
      (\<exists>q. mNext (h p) = Some q \<and>
           r = advanceInner cfg h (Some q, 0) (fst (sizeAndSealed (entries (h q) 0)))
                 (snd (sizeAndSealed (entries (h q) 0))) (Some (q, 0))))"

text \<open>
  The page after an append that ran alone, and after the seal of one entry; and a
  relation between a page and the same page later: a sealed page stays sealed with the
  same used bytes, and what was laid out or sealed stays so.
\<close>

definition acquired :: "log_page \<Rightarrow> u32 \<Rightarrow> u32 \<Rightarrow> u32 \<Rightarrow> log_page" where
  "acquired pg sz entrySize type =
     pg\<lparr>entries := (entries pg)(used pg := entries pg (used pg)\<lparr>mSize := push_bit 1 sz OR 1, mType := type\<rparr>),
        mOffset := push_bit 1 (used pg + entrySize) OR 1\<rparr>"

definition seal_entry :: "log_page \<Rightarrow> u32 \<Rightarrow> log_page" where
  "seal_entry pg pos = pg\<lparr>entries := (entries pg)(pos := LogEntry_seal (entries pg pos))\<rparr>"

definition grows :: "log_params \<Rightarrow> log_page \<Rightarrow> log_page \<Rightarrow> bool" where
  "grows cfg pg pg' =
     ((page_sealed pg \<longrightarrow> page_sealed pg' \<and> used pg' = used pg) \<and>
      (\<forall>pos. layout_from cfg pg pos \<longrightarrow> layout_from cfg pg' pos) \<and>
      (\<forall>pos. pos \<le> used pg \<and> sealed_upto cfg pg pos \<longrightarrow> sealed_upto cfg pg' pos))"

subsection \<open>A small ordered log\<close>

text \<open>
  A log made on memory that holds anything (here the busy page everywhere), with the free
  pages 4096 and 8192; the log after the append of 10 bytes of type 7 (\<open>log_a\<close>), after
  a second append of type 9 (\<open>log_b\<close>), after the seal of the second entry
  (\<open>log1\<close>) and after the seal of the first (\<open>log2\<close>).
\<close>

definition log0 :: ordered_log where
  "log0 = \<lparr>heap = (\<lambda>p. busy_page)(4096 := fresh_page), pageManager = [8192], deferred = [],
     mHead = Some 4096, mSealedHead = (Some 4096, 0), mTail = (Some 4096, 0)\<rparr>"

definition log_a :: ordered_log where
  "log_a = log0\<lparr>heap := (heap log0)(4096 :=
     fresh_page\<lparr>entries := (entries fresh_page)(0 := \<lparr>mSize = 21, mType = 7\<rparr>),
                 mOffset := 65\<rparr>)\<rparr>"

definition log_b :: ordered_log where
  "log_b = log0\<lparr>heap := (heap log0)(4096 :=
     fresh_page\<lparr>entries := (entries fresh_page)
                   (0 := \<lparr>mSize = 21, mType = 7\<rparr>, 32 := \<lparr>mSize = 21, mType = 9\<rparr>),
                 mOffset := 129\<rparr>)\<rparr>"

definition log1 :: ordered_log where
  "log1 = log0\<lparr>heap := (heap log0)(4096 :=
     fresh_page\<lparr>entries := (entries fresh_page)
                   (0 := \<lparr>mSize = 21, mType = 7\<rparr>, 32 := \<lparr>mSize = 20, mType = 9\<rparr>),
                 mOffset := 129\<rparr>)\<rparr>"

definition log2 :: ordered_log where
  "log2 = log0\<lparr>heap := (heap log0)(4096 :=
     fresh_page\<lparr>entries := (entries fresh_page)
                   (32 := \<lparr>mSize = 20, mType = 9\<rparr>, 0 := \<lparr>mSize = 20, mType = 7\<rparr>),
                 mOffset := 129\<rparr>),
     mSealedHead := (Some 4096, 64)\<rparr>"

section \<open>Properties of LogEntry\<close>

lemma round16_nz: "(a::nat) mod 16 \<noteq> 0 \<Longrightarrow> a + (16 - a mod 16) = ((a + 15) div 16) * 16"
proof -
  assume nz: "a mod 16 \<noteq> 0"
  define q where "q = a div 16"
  define r where "r = a mod 16"
  have a: "a = 16 * q + r" and r: "0 < r" "r < 16"
    using nz by (simp_all add: q_def r_def)
  have "(a + 15) div 16 = q + 1"
    using a r by simp
  moreover have "a + (16 - a mod 16) = 16 * (q + 1)"
    using a r by (simp add: r_def [symmetric])
  ultimately show ?thesis by simp
qed

lemma round16_z: "(a::nat) mod 16 = 0 \<Longrightarrow> a = ((a + 15) div 16) * 16"
  by (auto simp: mod_eq_0_iff_dvd elim!: dvdE)

lemma entrySizeFromSize_unat:
  assumes "unat x + unat L + 16 < 2 ^ 32"
  shows "unat (entrySizeFromSize L x) = ((unat x + unat L + 15) div 16) * 16"
proof -
  have s: "unat (x + L) = unat x + unat L"
    using assms by (simp add: unat_word_ariths)
  have m: "unat ((x + L) mod 16) = (unat x + unat L) mod 16"
    by (simp add: unat_mod s)
  show ?thesis
  proof (cases "(x + L) mod 16 = 0")
    case True
    then have "(unat x + unat L) mod 16 = 0"
      using m by simp
    then show ?thesis
      using True s round16_z [of "unat x + unat L"] by (simp add: entrySizeFromSize_def Let_def)
  next
    case False
    then have nz: "(unat x + unat L) mod 16 \<noteq> 0"
      using m by (simp add: unat_eq_0 [symmetric])
    have le: "(x + L) mod 16 \<le> 16"
      by (simp add: word_le_nat_alt m)
    have d: "unat (16 - (x + L) mod 16) = 16 - (unat x + unat L) mod 16"
      using le m by (simp add: unat_sub)
    have "unat (x + L + (16 - (x + L) mod 16)) = unat (x + L) + unat (16 - (x + L) mod 16)"
      using assms s d by (simp add: unat_word_ariths)
    then show ?thesis
      using False s d round16_nz [OF nz] by (simp add: entrySizeFromSize_def Let_def)
  qed
qed

lemma drop_bit_1_bound: "unat (drop_bit 1 (w :: u32)) < 2 ^ 31"
proof -
  have "unat (drop_bit 1 w) = unat w div 2"
    by (simp add: drop_bit_eq_div unat_div)
  moreover have "unat w < 2 ^ 32"
    using unsigned_less [of w] by simp
  ultimately show ?thesis by simp
qed

lemma entrySizeFromSize_occupied_nonzero:
  assumes "0 < L" "L \<le> 16"
  shows "entrySizeFromSize L (drop_bit 1 (w :: u32)) \<noteq> 0"
proof -
  have L: "0 < unat L" "unat L \<le> 16"
    using assms by (simp_all add: word_less_nat_alt word_le_nat_alt)
  have b: "unat (drop_bit 1 w) + unat L + 16 < 2 ^ 32"
    using drop_bit_1_bound [of w] L by simp
  have "0 < ((unat (drop_bit 1 w) + unat L + 15) div 16) * 16"
    using L by simp
  then have "unat (entrySizeFromSize L (drop_bit 1 w)) \<noteq> 0"
    using entrySizeFromSize_unat [OF b] by simp
  then show ?thesis
    by (simp add: unat_eq_0)
qed

text \<open>
  C6. For every size with \<open>0 < size < 2^31\<close>, \<open>tryAcquire\<close> returns 0 exactly when
  the compare-and-swap took the size field from 0 to \<open>(size << 1) | 1\<close> (and then stored
  the type); on an occupied entry the header is left as it is and the result is
  \<open>entrySizeFromSize\<close> of the occupying payload size, which is never 0. The header size
  \<open>LOG_ENTRY_SIZE\<close> is any value from 1 to 16.
\<close>

theorem tryAcquire_zero_iff_acquired:
  assumes "0 < sz" "sz < 2 ^ 31" "0 < L" "L \<le> 16"
  shows "\<exists>r e'. tryAcquire L sz type e = Inr (r, e') \<and>
           (r = 0 \<longleftrightarrow> mSize e = 0) \<and>
           (if mSize e = 0
            then e' = e\<lparr>mSize := push_bit 1 sz OR 1, mType := type\<rparr>
            else e' = e \<and> r = entrySizeFromSize L (drop_bit 1 (mSize e)))"
proof -
  have nz: "sz \<noteq> 0"
    using assms(1) by auto
  have "unat sz < 2 ^ 31"
    using assms(2) by (simp add: word_less_nat_alt)
  then have "unat (drop_bit 31 sz) = 0"
    by (simp add: drop_bit_eq_div unat_div)
  then have msb: "drop_bit 31 sz = 0"
    by (simp add: unat_eq_0)
  show ?thesis
    using nz msb entrySizeFromSize_occupied_nonzero [OF assms(3,4), of "mSize e"]
    by (simp add: tryAcquire_def Let_def)
qed

theorem tryAcquire_zero_iff_acquired_witness:
  "(0::u32) < 100 \<and> (100::u32) < 2 ^ 31 \<and> (0::u32) < 8 \<and> (8::u32) \<le> 16 \<and>
   tryAcquire 8 100 7 \<lparr>mSize = 0, mType = 0\<rparr> = Inr (0, \<lparr>mSize = 201, mType = 7\<rparr>) \<and>
   tryAcquire 8 100 7 \<lparr>mSize = 201, mType = 7\<rparr> = Inr (112, \<lparr>mSize = 201, mType = 7\<rparr>)"
proof -
  have h: "(0::u32) < 100" "(100::u32) < 2 ^ 31" "(0::u32) < 8" "(8::u32) \<le> 16"
    by simp_all
  have e: "entrySizeFromSize 8 (drop_bit 1 (201 :: u32)) = 112"
    by (simp add: entrySizeFromSize_def Let_def drop_bit_eq_div)
  have p: "push_bit 1 (100 :: u32) OR 1 = 201"
    by (simp add: push_bit_eq_mult)
  from tryAcquire_zero_iff_acquired [OF h, of 7 "\<lparr>mSize = 0, mType = 0\<rparr>"]
  have a: "tryAcquire 8 100 7 \<lparr>mSize = 0, mType = 0\<rparr> = Inr (0, \<lparr>mSize = 201, mType = 7\<rparr>)"
    using p by auto
  from tryAcquire_zero_iff_acquired [OF h, of 7 "\<lparr>mSize = 201, mType = 7\<rparr>"]
  have b: "tryAcquire 8 100 7 \<lparr>mSize = 201, mType = 7\<rparr> = Inr (112, \<lparr>mSize = 201, mType = 7\<rparr>)"
    using e by auto
  show ?thesis using h a b by simp
qed

section \<open>Properties of RowStorePage\<close>

subsection \<open>The scan phase\<close>

lemma gc_scan_clean:
  "page_records ops st offset rs \<Longrightarrow> none_needs_cleaning ops lav im rs \<Longrightarrow>
   gc_scan ops st lav im offset False = Some False"
proof (induction rs arbitrary: offset)
  case Nil
  then show ?case by (subst gc_scan.simps) simp
next
  case (Cons r rs)
  then show ?case by (subst gc_scan.simps) (simp add: none_needs_cleaning_def)
qed

text \<open>
  C4. On the first visit of \<open>gc\<close> to a page (\<open>mStartOffset = 8\<close>) none of whose
  records needs cleaning, \<open>gc\<close> returns the input page with \<open>done = true\<close> and leaves
  the object, the insert map and the hash table exactly as they were: the page is not marked
  for deletion and no fill page is allocated.
\<close>

theorem gc_no_cleaning_needed:
  assumes "mStartOffset st = 8"
    and "page_records ops st 8 rs"
    and "none_needs_cleaning ops lav im rs"
  shows "gc ops lav st im ht = Some (Inr (Some (mData st), True, st, im, ht))"
  using assms gc_scan_clean [of ops st 8 rs lav im] by (simp add: gc_def)

theorem gc_no_cleaning_needed_witness:
  "mStartOffset toy_page = 8 \<and>
   page_records toy_ops toy_page 8 [(1, 24, 0), (2, 24, 0), (3, 24, 0)] \<and>
   none_needs_cleaning toy_ops 0 [] [(1, 24, 0), (2, 24, 0), (3, 24, 0)] \<and>
   gc toy_ops 0 toy_page [] empty_table = Some (Inr (Some 10, True, toy_page, [], empty_table))"
proof -
  have a: "mStartOffset toy_page = 8" by (simp add: toy_page_def)
  have b: "page_records toy_ops toy_page 8 [(1, 24, 0), (2, 24, 0), (3, 24, 0)]"
    by (simp add: toy_page_def toy_ops_def)
  have c: "none_needs_cleaning toy_ops 0 [] [(1, 24, 0), (2, 24, 0), (3, 24, 0)]"
    by (simp add: none_needs_cleaning_def toy_ops_def)
  have d: "mData toy_page = 10" by (simp add: toy_page_def)
  show ?thesis using a b c gc_no_cleaning_needed [OF a b c, of empty_table] d by simp
qed

subsection \<open>The compact phase\<close>

lemma gc_compact_keeps_mStartOffset:
  assumes h: "gc_compact ops lav st im ht offset = Some y"
  shows "keeps_start st y"
  using h
proof (induction ops lav st im ht offset y rule: gc_compact.raw_induct [rotated 1, consumes 1])
  case (1 gcc ops lav st im ht offset y)
  note IH = "1.IH" and body = "1.hyps"
  show ?case
  proof (cases "offset < row_store_page.mSize st")
    case False
    then show ?thesis using body by (auto simp: keeps_start_def)
  next
    case True
    show ?thesis
    proof (cases "mFillPage st")
      case None
      then show ?thesis using True body by (auto simp: keeps_start_def)
    next
      case (Some fp)
      obtain w c im1 blob where cc:
        "copyAndCompact ops (recordAt st offset) lav im (fp, mFillOffset st)
           (PAGE_SIZE ops - mFillOffset st) = (w, c, im1, blob)"
        by (metis prod_cases4)
      show ?thesis
      proof (cases c)
        case False
        then show ?thesis using True Some cc body by (auto simp: Let_def keeps_start_def)
      next
        case c: True
        have "gcc ops lav
                (st\<lparr>mFillOffset := mFillOffset st + w,
                    memory := write_body (fp, mFillOffset st) blob (memory st)\<rparr>) im1
                (ht_insert (rec_key ops (recordAt st offset)) (fp, mFillOffset st) True ht)
                (offset + rec_size ops (recordAt st offset)) = Some y"
          using True Some cc c body by (simp add: Let_def)
        from IH [OF this] show ?thesis by (auto simp: keeps_start_def split: sum.splits)
      qed
    qed
  qed
qed

lemma toy_scan: "gc_scan toy_ops toy_page 1 [] 8 False = Some True"
  by (subst gc_scan.simps) (simp add: toy_page_def toy_ops_def)

lemma toy_scan1: "gc_scan toy_ops toy_page1 1 [] 8 False = Some True"
  by (subst gc_scan.simps) (simp add: toy_page1_def toy_page_def toy_ops_def)

lemma toy_gc_first:
  "gc toy_ops 1 toy_page [] empty_table = Some (Inr (Some 20, False, toy_page1, [], toy_table1))"
proof -
  have s: "mStartOffset toy_page = 8" by (simp add: toy_page_def)
  show ?thesis
    apply (simp add: gc_def s toy_scan)
    apply (simp add: constructFillPage_def markCurrentForDeletion_def)
    apply (subst gc_compact.simps)
    apply (simp add: toy_page_def toy_ops_def Let_def)
    apply (subst gc_compact.simps)
    apply (simp add: Let_def)
    apply (subst gc_compact.simps)
    apply (simp add: Let_def toy_page1_def toy_table1_def toy_page_def)
    done
qed

text \<open>
  C3. The page of three dirty records, with fill pages of 64 bytes. The first call of
  \<open>gc\<close> relocates the records at offsets 8 and 32 into fill page 20, finds no room for
  the third, writes the used bytes (56) into the fill page, returns it and clears
  \<open>mFillPage\<close>, with \<open>done = false\<close>: but it leaves \<open>mStartOffset\<close> at 8. The second
  call, with the fresh fill page 21, therefore marks the page for deletion again, relocates
  the first two records a second time and ends with \<open>done = false\<close> again: it does not
  resume at offset 56 and does not complete.
\<close>

theorem gc_second_call_restarts:
  "gc toy_ops 1 toy_page [] empty_table = Some (Inr (Some 20, False, toy_page1, [], toy_table1)) \<and>
   mStartOffset toy_page1 = 8 \<and>
   gc toy_ops 1 toy_page1 [] toy_table1 = Some (Inr (Some 21, False, toy_page2, [], toy_table2)) \<and>
   insertCalls toy_table2 =
     [(1, (20, 8), True), (2, (20, 32), True), (1, (21, 8), True), (2, (21, 32), True)] \<and>
   markedForDeletion toy_page2 = [10, 10]"
proof -
  have s: "mStartOffset toy_page1 = 8" by (simp add: toy_page1_def toy_page_def)
  have g2: "gc toy_ops 1 toy_page1 [] toy_table1 = Some (Inr (Some 21, False, toy_page2, [], toy_table2))"
    apply (simp add: gc_def s toy_scan1)
    apply (simp add: constructFillPage_def markCurrentForDeletion_def)
    apply (subst gc_compact.simps)
    apply (simp add: toy_page1_def toy_page_def toy_ops_def Let_def)
    apply (subst gc_compact.simps)
    apply (simp add: Let_def)
    apply (subst gc_compact.simps)
    apply (simp add: Let_def toy_page2_def toy_table2_def toy_page1_def toy_page_def)
    done
  have c: "insertCalls toy_table2 =
     [(1, (20, 8), True), (2, (20, 32), True), (1, (21, 8), True), (2, (21, 32), True)]"
    by (simp add: toy_table2_def toy_table1_def empty_table_def ht_insert_def)
  have m: "markedForDeletion toy_page2 = [10, 10]" by (simp add: toy_page2_def)
  show ?thesis using toy_gc_first s g2 c m by simp
qed

subsection \<open>fillWithInserts\<close>






lemma im_erase_hd: "im_erase (fst e) (e # es) = es"
  by simp












section \<open>Properties of LogPage::appendEntry\<close>

subsection \<open>Words\<close>

lemma mod16_take_bit: "(w :: u32) mod 16 = take_bit 4 w"
  by (simp add: take_bit_eq_mod)

lemma unat_mod16: "unat ((w :: u32) mod 16) = unat w mod 16"
  by (simp add: unat_mod)

lemma word_mod16_iff: "((w :: u32) mod 16 = 0) = (unat w mod 16 = 0)"
  by (simp add: unat_eq_0 [symmetric] unat_mod)

lemma add_mod16:
  assumes "(a :: u32) mod 16 = 0" "b mod 16 = 0"
  shows "(a + b) mod 16 = 0"
proof -
  have "unat (a + b) mod 16 = ((unat a + unat b) mod 2 ^ 32) mod 16"
    by (simp add: unat_word_ariths)
  also have "\<dots> = (unat a + unat b) mod 16"
    by (simp add: mod_mod_cancel)
  also have "\<dots> = (unat a mod 16 + unat b mod 16) mod 16"
    by (rule mod_add_eq [symmetric])
  also have "\<dots> = 0"
    using assms by (simp add: word_mod16_iff)
  finally show ?thesis by (simp add: word_mod16_iff)
qed

lemma entrySizeFromSize_mod16: "entrySizeFromSize L x mod 16 = 0"
proof -
  define s where "s = x + L"
  show ?thesis
  proof (cases "s mod 16 = 0")
    case True
    then show ?thesis by (simp add: entrySizeFromSize_def Let_def s_def)
  next
    case False
    have le: "unat (s mod 16) \<le> 16" by (simp add: unat_mod)
    have d: "unat (16 - s mod 16) = 16 - unat s mod 16"
      using le by (simp add: unat_sub word_le_nat_alt unat_mod)
    have "unat (s + (16 - s mod 16)) mod 16 = ((unat s + (16 - unat s mod 16)) mod 2 ^ 32) mod 16"
      by (simp add: unat_word_ariths d del: unat_sub)
    also have "\<dots> = (unat s + (16 - unat s mod 16)) mod 16"
      by (simp add: mod_mod_cancel)
    also have "\<dots> = 0"
      using round16_nz [of "unat s"] False by (simp add: word_mod16_iff)
    finally have "(s + (16 - s mod 16)) mod 16 = 0" by (simp add: word_mod16_iff)
    then show ?thesis using False by (simp add: entrySizeFromSize_def Let_def s_def)
  qed
qed

lemma bit_published: "bit (push_bit 1 (e :: u32) OR 1) (Suc n) = (Suc n < 32 \<and> bit e n)"
proof -
  have "bit (push_bit 1 e OR 1) (Suc n) = bit (push_bit 1 e) (Suc n)"
    by (simp only: bit_or_iff bit_1_iff) simp
  also have "\<dots> = (Suc n < 32 \<and> bit e n)"
    by (simp only: bit_push_bit_iff possible_bit_word) auto
  finally show ?thesis .
qed

lemma bit_drop1: "bit (drop_bit 1 (w :: u32)) n = bit w (Suc n)"
  by (simp add: bit_drop_bit_eq)

lemma published_position_mod16:
  "drop_bit 1 (push_bit 1 (e :: u32) OR 1) mod 16 = e mod 16"
proof -
  have "take_bit 4 (drop_bit 1 (push_bit 1 e OR 1)) = take_bit 4 e"
  proof (rule bit_eqI)
    fix n
    show "bit (take_bit 4 (drop_bit 1 (push_bit 1 e OR 1))) n = bit (take_bit 4 e) n"
      by (simp only: bit_take_bit_iff bit_drop1 bit_published) auto
  qed
  then show ?thesis by (simp only: take_bit_eq_mod) simp
qed

lemma published_position:
  "(e :: u32) < 2 ^ 31 \<Longrightarrow> drop_bit 1 (push_bit 1 e OR 1) = e"
proof -
  assume "e < 2 ^ 31"
  then have "unat e < 2 ^ 31" by (simp add: word_less_nat_alt)
  then have "unat (take_bit 31 e) = unat e"
    by (simp add: unsigned_take_bit_eq take_bit_nat_eq_self_iff)
  then have t: "take_bit 31 e = e"
    by (simp add: word_unat_eq_iff)
  have "drop_bit 1 (push_bit 1 e OR 1) = take_bit 31 e"
  proof (rule bit_eqI)
    fix n
    show "bit (drop_bit 1 (push_bit 1 e OR 1)) n = bit (take_bit 31 e) n"
      by (simp only: bit_take_bit_iff bit_drop1 bit_published) (auto dest: bit_imp_le_length)
  qed
  then show ?thesis using t by simp
qed

lemma published_low_bit: "(push_bit 1 (e :: u32) OR 1) AND 1 = 1"
  by (rule bit_eqI) (auto simp: bit_and_iff bit_or_iff bit_1_iff)

lemma probe_address:
  "(self + H) mod 16 = 8 \<Longrightarrow> (pos :: u32) mod 16 = 0 \<Longrightarrow> (self + H + unat pos) mod 16 = (8::nat)"
proof -
  assume a: "(self + H) mod 16 = 8" and b: "pos mod 16 = 0"
  have "(self + H + unat pos) mod 16 = ((self + H) mod 16 + unat pos mod 16) mod 16"
    by (rule mod_add_eq [symmetric])
  then show ?thesis using a b by (simp add: word_mod16_iff)
qed

subsection \<open>The publish loop\<close>

declare publishOffset.simps [simp del]

lemma publishOffset_trace:
  "offset AND 1 \<noteq> 0 \<Longrightarrow>
   publishOffset env pg offset nOffset endPosition tr = (ok, pg', env', tr') \<Longrightarrow>
   \<exists>new. tr' = tr @ new \<and> list_all (is_publish nOffset) new \<and>
         (ok = (new = [] \<or> \<not> seal_observed endPosition (last new)))"
proof (induction env pg offset nOffset endPosition tr rule: publishOffset.induct)
  case (1 env pg offset nOffset endPosition tr)
  show ?case
  proof (cases "offset < nOffset")
    case False
    then show ?thesis using "1.prems" by (subst (asm) publishOffset.simps) auto
  next
    case True
    define pg1 where "pg1 = interfere env pg"
    define found where "found = mOffset pg1"
    define tr1 where "tr1 = tr @ [CasOffset offset nOffset found]"
    show ?thesis
    proof (cases "found = offset")
      case f: True
      then have "tr' = tr @ [CasOffset offset nOffset found]" "ok"
        using "1.prems" True
        by (subst (asm) publishOffset.simps; simp add: Let_def pg1_def found_def)+
      then show ?thesis using f "1.prems"(1) by (simp add: is_publish_def seal_observed_def)
    next
      case nf: False
      show ?thesis
      proof (cases "found AND 1 = 0")
        case s: True
        then have "tr' = tr @ [CasOffset offset nOffset found]" "ok = (endPosition \<le> drop_bit 1 found)"
          using "1.prems" True nf
          by (subst (asm) publishOffset.simps; auto simp add: Let_def pg1_def found_def split: if_splits)+
        then show ?thesis using s by (auto simp add: is_publish_def seal_observed_def)
      next
        case ns: False
        have rec: "publishOffset (tl env) pg1 found nOffset endPosition tr1 = (ok, pg', env', tr')"
          using "1.prems" True nf ns
          by (subst (asm) publishOffset.simps) (simp add: Let_def pg1_def found_def tr1_def)
        from "1.IH" [OF True pg1_def found_def tr1_def nf ns ns rec]
        obtain new where new: "tr' = tr1 @ new" "list_all (is_publish nOffset) new"
          "ok = (new = [] \<or> \<not> seal_observed endPosition (last new))" by blast
        have "tr' = tr @ (CasOffset offset nOffset found # new)"
          using new by (simp add: tr1_def)
        moreover have "list_all (is_publish nOffset) (CasOffset offset nOffset found # new)"
          using new by (simp add: is_publish_def)
        moreover have "ok = (CasOffset offset nOffset found # new = [] \<or>
             \<not> seal_observed endPosition (last (CasOffset offset nOffset found # new)))"
          using new ns by (auto simp: seal_observed_def)
        ultimately show ?thesis by blast
      qed
    qed
  qed
qed

subsection \<open>Alignment of the probed positions\<close>

lemma tryAcquire_cases:
  "tryAcquire L sz type e = Inr (res, e') \<Longrightarrow>
   (log_entry.mSize e \<noteq> 0 \<and> res = entrySizeFromSize L (drop_bit 1 (log_entry.mSize e)) \<and> e' = e) \<or>
   (log_entry.mSize e = 0 \<and> res = 0 \<and> drop_bit 31 sz = 0 \<and>
    e' = e\<lparr>log_entry.mSize := push_bit 1 sz OR 1, mType := type\<rparr>)"
  by (auto simp: tryAcquire_def Let_def split: if_splits)

lemma list_all_publish_aligned:
  "drop_bit 1 nOffset mod 16 = 0 \<Longrightarrow> list_all (is_publish nOffset) new \<Longrightarrow> list_all publish_aligned new"
  by (induction new) (auto simp: is_publish_def publish_aligned_def split: event.splits)

lemma list_all_publish_probe:
  "list_all (is_publish nOffset) new \<Longrightarrow> list_all (probe_aligned P self) new"
  by (induction new) (auto simp: is_publish_def probe_aligned_def split: event.splits)

lemma acquireLoop_aligned:
  assumes run: "acquireLoop P0 self0 sz0 entrySize0 type0 offset0 env0 pg0 position0 tr0 = Some y0"
  shows "(self0 + LOG_HEADER_SIZE P0) mod 16 = 8 \<longrightarrow> offset0 AND 1 \<noteq> 0 \<longrightarrow>
         position0 mod 16 = 0 \<longrightarrow> list_all (probe_aligned P0 self0) tr0 \<longrightarrow>
         (entrySize0 mod 16 = 0 \<longrightarrow> list_all publish_aligned tr0) \<longrightarrow>
         y0 \<noteq> Inl misaligned \<and>
         (\<forall>res pg' env' tr'. y0 = Inr (res, pg', env', tr') \<longrightarrow>
            list_all (probe_aligned P0 self0) tr' \<and>
            (entrySize0 mod 16 = 0 \<longrightarrow> list_all publish_aligned tr'))"
proof (rule acquireLoop.raw_induct
    [where P = "\<lambda>P self sz entrySize type offset env pg position tr y.
         (self + LOG_HEADER_SIZE P) mod 16 = 8 \<longrightarrow> offset AND 1 \<noteq> 0 \<longrightarrow>
         position mod 16 = 0 \<longrightarrow> list_all (probe_aligned P self) tr \<longrightarrow>
         (entrySize mod 16 = 0 \<longrightarrow> list_all publish_aligned tr) \<longrightarrow>
         y \<noteq> Inl misaligned \<and>
         (\<forall>res pg' env' tr'. y = Inr (res, pg', env', tr') \<longrightarrow>
            list_all (probe_aligned P self) tr' \<and>
            (entrySize mod 16 = 0 \<longrightarrow> list_all publish_aligned tr'))", OF _ run], goal_cases)
  case (1 loop P self sz entrySize type offset env pg position tr y)
  note IH = 1(1) and body = 1(2)
  show ?case
  proof (intro impI)
    assume base: "(self + LOG_HEADER_SIZE P) mod 16 = 8"
      and unsealed: "offset AND 1 \<noteq> 0"
      and pos: "position mod 16 = 0"
      and tr: "list_all (probe_aligned P self) tr"
      and trp: "entrySize mod 16 = 0 \<longrightarrow> list_all publish_aligned tr"
    have addr: "(self + LOG_HEADER_SIZE P + unat position) mod 16 = 8"
      by (rule probe_address [OF base pos])
    show "y \<noteq> Inl misaligned \<and>
         (\<forall>res pg' env' tr'. y = Inr (res, pg', env', tr') \<longrightarrow>
            list_all (probe_aligned P self) tr' \<and>
            (entrySize mod 16 = 0 \<longrightarrow> list_all publish_aligned tr'))"
    proof (cases "MAX_ENTRY_SIZE P < position + entrySize")
      case True
      then show ?thesis using body tr trp by (auto simp: Let_def)
    next
      case False
      define pg1 where "pg1 = interfere env pg"
      show ?thesis
      proof (cases "tryAcquire (LOG_ENTRY_SIZE P) sz type (entries pg1 position)")
        case (Inl f)
        have "f \<noteq> misaligned"
          using Inl by (auto simp: tryAcquire_def misaligned_def Let_def split: if_splits)
        then show ?thesis using body False addr Inl by (auto simp: Let_def pg1_def)
      next
        case (Inr r)
        obtain res e' where r: "r = (res, e')" by (cases r)
        define tr1 where "tr1 = tr @ [CasSize position (log_entry.mSize (entries pg1 position))]"
        have tr1: "list_all (probe_aligned P self) tr1"
          "entrySize mod 16 = 0 \<longrightarrow> list_all publish_aligned tr1"
          using tr trp addr by (auto simp: tr1_def probe_aligned_def publish_aligned_def)
        show ?thesis
        proof (cases "res = 0")
          case nz: False
          have res: "res mod 16 = 0"
            using tryAcquire_cases [OF Inr [unfolded r]] nz by (auto simp: entrySizeFromSize_mod16)
          have "loop P self sz entrySize type offset (tl env) pg1 (position + res) tr1 = Some y"
            using body False addr Inr r nz by (simp add: Let_def pg1_def tr1_def)
          from IH [OF this] have
            "(self + LOG_HEADER_SIZE P) mod 16 = 8 \<longrightarrow> offset AND 1 \<noteq> 0 \<longrightarrow>
             (position + res) mod 16 = 0 \<longrightarrow> list_all (probe_aligned P self) tr1 \<longrightarrow>
             (entrySize mod 16 = 0 \<longrightarrow> list_all publish_aligned tr1) \<longrightarrow>
             y \<noteq> Inl misaligned \<and>
             (\<forall>res pg' env' tr'. y = Inr (res, pg', env', tr') \<longrightarrow>
                list_all (probe_aligned P self) tr' \<and>
                (entrySize mod 16 = 0 \<longrightarrow> list_all publish_aligned tr'))" .
          then show ?thesis
            using base unsealed add_mod16 [OF pos res] tr1(1) tr1(2) by simp
        next
          case z: True
          define pg2 where "pg2 = pg1\<lparr>entries := (entries pg1)(position := e')\<rparr>"
          define nOffset where "nOffset = push_bit 1 (position + entrySize) OR (1 :: u32)"
          obtain ok pg3 env3 tr3 where
            pub: "publishOffset (tl env) pg2 offset nOffset (position + entrySize) tr1 = (ok, pg3, env3, tr3)"
            by (metis prod_cases4)
          have y: "y = Inr (if ok then Some position else None, pg3, env3, tr3)"
            using body False addr Inr r z pub
            by (simp add: Let_def pg1_def tr1_def pg2_def nOffset_def)
          from publishOffset_trace [OF unsealed pub]
          obtain new where new: "tr3 = tr1 @ new" "list_all (is_publish nOffset) new" by blast
          have a: "list_all (probe_aligned P self) tr3"
            using new tr1 list_all_publish_probe by auto
          have b: "entrySize mod 16 = 0 \<longrightarrow> list_all publish_aligned tr3"
          proof
            assume e: "entrySize mod 16 = 0"
            have "drop_bit 1 nOffset mod 16 = 0"
              unfolding nOffset_def published_position_mod16
              using add_mod16 [OF pos e] .
            then show "list_all publish_aligned tr3"
              using new tr1 e list_all_publish_aligned by auto
          qed
          show ?thesis using y a b by simp
        qed
      qed
    qed
  qed
qed

lemma esz10: "entrySizeFromSize 8 10 = 32"
  by (simp add: entrySizeFromSize_def Let_def)

lemma busy_run:
  "appendEntry small_log 4096 10 32 7 [] busy_page =
     Some (Inr (Some 32,
                busy_page\<lparr>entries := (entries busy_page)(32 := \<lparr>mSize = 21, mType = 7\<rparr>), mOffset := 129\<rparr>,
                [], [LoadOffset 1, CasSize 0 21, CasSize 32 0, CasOffset 1 129 1]))"
  apply (simp add: appendEntry_def Let_def interfere_def busy_page_def fresh_page_def)
  apply (subst acquireLoop.simps)
  apply (simp add: small_log_def Let_def interfere_def tryAcquire_def esz10 drop_bit_eq_div)
  apply (subst acquireLoop.simps)
  apply (simp add: small_log_def Let_def interfere_def tryAcquire_def esz10 drop_bit_eq_div push_bit_eq_mult)
  apply (subst publishOffset.simps)
  apply (simp add: Let_def interfere_def)
  done

lemma raced_run:
  "appendEntry small_log 4096 10 32 7 [id, id, LogPage_seal] fresh_page =
     Some (Inr (None,
                fresh_page\<lparr>entries := (entries fresh_page)(0 := \<lparr>mSize = 21, mType = 7\<rparr>), mOffset := 0\<rparr>,
                [], [LoadOffset 1, CasSize 0 0, CasOffset 1 65 0]))"
  apply (simp add: appendEntry_def Let_def interfere_def fresh_page_def)
  apply (subst acquireLoop.simps)
  apply (simp add: small_log_def Let_def interfere_def tryAcquire_def esz10 drop_bit_eq_div push_bit_eq_mult)
  apply (subst publishOffset.simps)
  apply (simp add: Let_def interfere_def LogPage_seal_def)
  done

text \<open>
  C9. When \<open>data()\<close> is 8 modulo 16 and the position in the loaded page offset is a
  multiple of 16, the alignment assertion of \<open>appendEntry\<close> never fails, whatever other
  threads do: every position it probes has an address that is 8 modulo 16. The skips
  preserve this because \<open>entrySizeFromSize\<close> is always a multiple of 16; and when the
  entry size is such a multiple, every offset \<open>appendEntry\<close> publishes stores a position
  that is a multiple of 16 again.
\<close>

theorem appendEntry_probes_aligned:
  assumes "(self + LOG_HEADER_SIZE P) mod 16 = 8"
    and "drop_bit 1 (mOffset (interfere env pg)) mod 16 = 0"
  shows "appendEntry P self sz entrySize type env pg \<noteq> Some (Inl misaligned) \<and>
         (\<forall>res pg' env' tr.
            appendEntry P self sz entrySize type env pg = Some (Inr (res, pg', env', tr)) \<longrightarrow>
            list_all (probe_aligned P self) tr \<and>
            (entrySize mod 16 = 0 \<longrightarrow> list_all publish_aligned tr)) \<and>
         entrySizeFromSize (LOG_ENTRY_SIZE P) sz mod 16 = 0"
proof (cases "mOffset (interfere env pg) AND 1 = 0")
  case True
  then show ?thesis
    by (simp add: appendEntry_def Let_def entrySizeFromSize_mod16 probe_aligned_def publish_aligned_def)
next
  case False
  let ?off = "mOffset (interfere env pg)"
  have eq: "appendEntry P self sz entrySize type env pg =
        acquireLoop P self sz entrySize type ?off (tl env) (interfere env pg) (drop_bit 1 ?off)
          [LoadOffset ?off]"
    using False by (simp add: appendEntry_def Let_def)
  have t: "list_all (probe_aligned P self) [LoadOffset ?off]"
    "entrySize mod 16 = 0 \<longrightarrow> list_all publish_aligned [LoadOffset ?off]"
    by (simp_all add: probe_aligned_def publish_aligned_def)
  show ?thesis
  proof (cases "appendEntry P self sz entrySize type env pg")
    case None
    then show ?thesis by (simp add: entrySizeFromSize_mod16)
  next
    case (Some y)
    from acquireLoop_aligned [OF Some [unfolded eq]] assms False t
    show ?thesis using Some by (simp add: entrySizeFromSize_mod16)
  qed
qed

theorem appendEntry_probes_aligned_witness:
  "(4096 + LOG_HEADER_SIZE small_log) mod 16 = 8 \<and>
   drop_bit 1 (mOffset (interfere [] busy_page)) mod 16 = 0 \<and>
   appendEntry small_log 4096 10 32 7 [] busy_page \<noteq> Some (Inl misaligned) \<and>
   list_all (probe_aligned small_log 4096)
     [LoadOffset 1, CasSize 0 21, CasSize 32 0, CasOffset 1 129 1] \<and>
   list_all publish_aligned [LoadOffset 1, CasSize 0 21, CasSize 32 0, CasOffset 1 129 1] \<and>
   entrySizeFromSize (LOG_ENTRY_SIZE small_log) 10 mod 16 = 0"
proof -
  have a: "(4096 + LOG_HEADER_SIZE small_log) mod 16 = 8"
    by (simp add: small_log_def)
  have b: "drop_bit 1 (mOffset (interfere [] busy_page)) mod 16 = 0"
    by (simp add: interfere_def busy_page_def fresh_page_def)
  have c: "(32 :: u32) mod 16 = 0" by simp
  from appendEntry_probes_aligned [OF a b, of 10 32 7] busy_run c
  show ?thesis using a b by simp
qed

subsection \<open>When appendEntry returns null\<close>

lemma acquisitions_append: "acquisitions (tr @ tr2) = acquisitions tr @ acquisitions tr2"
  by (induction tr rule: acquisitions.induct) auto

lemma candidate_append: "candidate L (tr @ tr2) position = candidate L tr2 (candidate L tr position)"
  by (induction L tr position rule: candidate.induct) auto

lemma publish_events:
  "list_all (is_publish nOffset) new \<Longrightarrow> acquisitions new = [] \<and> candidate L new position = position"
  by (induction new) (auto simp: is_publish_def split: event.splits)

lemma interfere_keeps:
  "list_all keeps_acquired env \<Longrightarrow> log_entry.mSize (entries pg pos) \<noteq> 0 \<Longrightarrow>
   log_entry.mSize (entries (interfere env pg) pos) \<noteq> 0 \<and>
   drop_bit 1 (log_entry.mSize (entries (interfere env pg) pos)) = drop_bit 1 (log_entry.mSize (entries pg pos))"
  by (cases env) (auto simp: interfere_def keeps_acquired_def)

lemma list_all_tl: "list_all Q xs \<Longrightarrow> list_all Q (tl xs)"
  by (cases xs) auto

lemma publishOffset_keeps:
  "list_all keeps_acquired env \<Longrightarrow> log_entry.mSize (entries pg pos) \<noteq> 0 \<Longrightarrow>
   publishOffset env pg offset nOffset endPosition tr = (ok, pg', env', tr') \<Longrightarrow>
   log_entry.mSize (entries pg' pos) \<noteq> 0 \<and>
   drop_bit 1 (log_entry.mSize (entries pg' pos)) = drop_bit 1 (log_entry.mSize (entries pg pos))"
proof (induction env pg offset nOffset endPosition tr rule: publishOffset.induct)
  case (1 env pg offset nOffset endPosition tr)
  note k = interfere_keeps [OF "1.prems"(1,2)]
  show ?case
  proof (cases "offset < nOffset")
    case False
    then show ?thesis using "1.prems" by (subst (asm) publishOffset.simps) auto
  next
    case True
    define pg1 where "pg1 = interfere env pg"
    define found where "found = mOffset pg1"
    define tr1 where "tr1 = tr @ [CasOffset offset nOffset found]"
    show ?thesis
    proof (cases "found \<noteq> offset \<and> found AND 1 \<noteq> 0")
      case False
      then have "entries pg' = entries pg1"
        using "1.prems"(3) True
        by (subst (asm) publishOffset.simps) (auto simp: Let_def pg1_def found_def split: if_splits)
      then show ?thesis using k by (simp add: pg1_def)
    next
      case c: True
      have rec: "publishOffset (tl env) pg1 found nOffset endPosition tr1 = (ok, pg', env', tr')"
        using "1.prems"(3) True c
        by (subst (asm) publishOffset.simps) (simp add: Let_def pg1_def found_def tr1_def)
      have k1: "log_entry.mSize (entries pg1 pos) \<noteq> 0" using k by (simp add: pg1_def)
      from "1.IH" [OF True pg1_def found_def tr1_def _ _ list_all_tl [OF "1.prems"(1)] k1 rec] c
      show ?thesis using k by (simp add: pg1_def)
    qed
  qed
qed

lemma msb_zero_less: "drop_bit 31 (sz :: u32) = 0 \<Longrightarrow> sz < 2 ^ 31"
proof -
  assume "drop_bit 31 sz = 0"
  then have "unat (drop_bit 31 sz) = 0" by simp
  then have "unat sz div 2 ^ 31 = 0" by (simp add: drop_bit_eq_div unat_div)
  then have "unat sz < 2 ^ 31" by (simp add: div_eq_0_iff)
  then show ?thesis by (simp add: word_less_nat_alt)
qed

lemma published_nonzero: "push_bit 1 (e :: u32) OR 1 \<noteq> 0"
proof
  assume "push_bit 1 e OR 1 = 0"
  then have "(push_bit 1 e OR 1) AND 1 = 0" by simp
  then show False using published_low_bit [of e] by simp
qed

lemma not_sealed_before: "tr \<noteq> [] \<Longrightarrow> hd tr = LoadOffset offset \<Longrightarrow> offset AND 1 \<noteq> 0 \<Longrightarrow> \<not> sealed_before tr"
  by (cases tr) (auto simp: sealed_before_def split: list.splits event.splits)

lemma acquireLoop_outcome:
  assumes run: "acquireLoop P0 self0 sz0 entrySize0 type0 offset0 env0 pg0 position0 tr0 = Some y0"
  shows "0 < LOG_ENTRY_SIZE P0 \<longrightarrow> LOG_ENTRY_SIZE P0 \<le> 16 \<longrightarrow> offset0 AND 1 \<noteq> 0 \<longrightarrow>
         tr0 \<noteq> [] \<longrightarrow> hd tr0 = LoadOffset offset0 \<longrightarrow> acquisitions tr0 = [] \<longrightarrow>
         candidate (LOG_ENTRY_SIZE P0) tr0 0 = position0 \<longrightarrow>
         (\<forall>res pg' env' tr'. y0 = Inr (res, pg', env', tr') \<longrightarrow>
            (res = None \<longleftrightarrow> no_position P0 entrySize0 tr' \<or> seal_raced entrySize0 tr') \<and>
            \<not> sealed_before tr' \<and>
            (case res of None \<Rightarrow> True | Some pos \<Rightarrow> acquisitions tr' = [pos]) \<and>
            (seal_raced entrySize0 tr' \<and> list_all keeps_acquired env0 \<longrightarrow>
               abandoned sz0 (acquisitions tr') pg'))"
proof (rule acquireLoop.raw_induct
    [where P = "\<lambda>P self sz entrySize type offset env pg position tr y.
         0 < LOG_ENTRY_SIZE P \<longrightarrow> LOG_ENTRY_SIZE P \<le> 16 \<longrightarrow> offset AND 1 \<noteq> 0 \<longrightarrow>
         tr \<noteq> [] \<longrightarrow> hd tr = LoadOffset offset \<longrightarrow> acquisitions tr = [] \<longrightarrow>
         candidate (LOG_ENTRY_SIZE P) tr 0 = position \<longrightarrow>
         (\<forall>res pg' env' tr'. y = Inr (res, pg', env', tr') \<longrightarrow>
            (res = None \<longleftrightarrow> no_position P entrySize tr' \<or> seal_raced entrySize tr') \<and>
            \<not> sealed_before tr' \<and>
            (case res of None \<Rightarrow> True | Some pos \<Rightarrow> acquisitions tr' = [pos]) \<and>
            (seal_raced entrySize tr' \<and> list_all keeps_acquired env \<longrightarrow>
               abandoned sz (acquisitions tr') pg'))", OF _ run], goal_cases)
  case (1 loop P self sz entrySize type offset env pg position tr y)
  note IH = 1(1) and body = 1(2)
  show ?case
  proof (intro impI allI)
    fix res pg' env' tr'
    assume L: "0 < LOG_ENTRY_SIZE P" "LOG_ENTRY_SIZE P \<le> 16"
      and unsealed: "offset AND 1 \<noteq> 0"
      and tr: "tr \<noteq> []" "hd tr = LoadOffset offset" "acquisitions tr = []"
        "candidate (LOG_ENTRY_SIZE P) tr 0 = position"
      and y: "y = Inr (res, pg', env', tr')"
    let ?goal = "(res = None \<longleftrightarrow> no_position P entrySize tr' \<or> seal_raced entrySize tr') \<and>
            \<not> sealed_before tr' \<and>
            (case res of None \<Rightarrow> True | Some pos \<Rightarrow> acquisitions tr' = [pos]) \<and>
            (seal_raced entrySize tr' \<and> list_all keeps_acquired env \<longrightarrow>
               abandoned sz (acquisitions tr') pg')"
    show ?goal
    proof (cases "MAX_ENTRY_SIZE P < position + entrySize")
      case True
      then have "res = None" "tr' = tr" using body y by (auto simp: Let_def)
      then show ?thesis
        using True tr unsealed not_sealed_before [OF tr(1,2) unsealed]
        by (simp add: no_position_def seal_raced_def)
    next
      case False
      define pg1 where "pg1 = interfere env pg"
      define found where "found = log_entry.mSize (entries pg1 position)"
      define tr1 where "tr1 = tr @ [CasSize position found]"
      have al: "(self + LOG_HEADER_SIZE P + unat position) mod 16 = 8"
        using body False y by (auto simp: Let_def split: if_splits)
      obtain r e' where acq: "tryAcquire (LOG_ENTRY_SIZE P) sz type (entries pg1 position) = Inr (r, e')"
        using body False al y by (auto simp: Let_def pg1_def split: sum.splits)
      have hd1: "tr1 \<noteq> []" "hd tr1 = LoadOffset offset"
        using tr by (simp_all add: tr1_def)
      show ?thesis
      proof (cases "r = 0")
        case nz: False
        have f: "found \<noteq> 0" "r = entrySizeFromSize (LOG_ENTRY_SIZE P) (drop_bit 1 found)"
          using tryAcquire_cases [OF acq] nz by (auto simp: found_def)
        have rec: "loop P self sz entrySize type offset (tl env) pg1 (position + r) tr1 = Some y"
          using body False al acq nz by (simp add: Let_def pg1_def tr1_def found_def)
        have a1: "acquisitions tr1 = []"
          using tr f by (simp add: tr1_def acquisitions_append)
        have c1: "candidate (LOG_ENTRY_SIZE P) tr1 0 = position + r"
          using tr f by (simp add: tr1_def candidate_append)
        from IH [OF rec] L unsealed hd1 a1 c1 y
        have "(res = None \<longleftrightarrow> no_position P entrySize tr' \<or> seal_raced entrySize tr') \<and>
            \<not> sealed_before tr' \<and>
            (case res of None \<Rightarrow> True | Some pos \<Rightarrow> acquisitions tr' = [pos]) \<and>
            (seal_raced entrySize tr' \<and> list_all keeps_acquired (tl env) \<longrightarrow>
               abandoned sz (acquisitions tr') pg')"
          by simp
        then show ?thesis using list_all_tl [of keeps_acquired env] by blast
      next
        case z: True
        have f: "found = 0" "drop_bit 31 sz = 0"
          "e' = (entries pg1 position)\<lparr>log_entry.mSize := push_bit 1 sz OR 1, mType := type\<rparr>"
          using tryAcquire_cases [OF acq] z entrySizeFromSize_occupied_nonzero [OF L]
          by (auto simp: found_def)
        define pg2 where "pg2 = pg1\<lparr>entries := (entries pg1)(position := e')\<rparr>"
        define nOffset where "nOffset = push_bit 1 (position + entrySize) OR (1 :: u32)"
        obtain ok pg3 env3 tr3 where
          pub: "publishOffset (tl env) pg2 offset nOffset (position + entrySize) tr1 = (ok, pg3, env3, tr3)"
          by (metis prod_cases4)
        have "y = Inr (if ok then Some position else None, pg3, env3, tr3)"
          using body False al acq z pub
          by (simp add: Let_def pg1_def tr1_def pg2_def nOffset_def found_def)
        then have res: "res = (if ok then Some position else None)" "pg' = pg3" "tr' = tr3"
          using y by simp_all
        from publishOffset_trace [OF unsealed pub]
        obtain new where new: "tr3 = tr1 @ new" "list_all (is_publish nOffset) new"
          "ok = (new = [] \<or> \<not> seal_observed (position + entrySize) (last new))" by blast
        have a3: "acquisitions tr3 = [position]"
          using new tr f publish_events [OF new(2), of "LOG_ENTRY_SIZE P" 0]
          by (simp add: tr1_def acquisitions_append)
        have last3: "seal_observed (position + entrySize) (last tr3) = (\<not> ok)"
          using new by (auto simp: tr1_def seal_observed_def)
        have sr: "seal_raced entrySize tr3 = (\<not> ok)"
          using a3 last3 new by (simp add: seal_raced_def tr1_def)
        have np: "\<not> no_position P entrySize tr3"
          using a3 by (simp add: no_position_def)
        have sb: "\<not> sealed_before tr3"
          using not_sealed_before [of tr3 offset] hd1 new unsealed by simp
        have e2: "log_entry.mSize (entries pg2 position) \<noteq> 0"
          "drop_bit 1 (log_entry.mSize (entries pg2 position)) = sz"
          using f published_nonzero [of sz] published_position [OF msb_zero_less [OF f(2)]]
          by (simp_all add: pg2_def)
        have ab: "list_all keeps_acquired env \<Longrightarrow> abandoned sz (acquisitions tr3) pg3"
        proof -
          assume "list_all keeps_acquired env"
          from publishOffset_keeps [OF list_all_tl [OF this] e2(1) pub] e2(2) a3
          show ?thesis by (simp add: abandoned_def)
        qed
        show ?thesis using res sr np sb a3 ab by auto
      qed
    qed
  qed
qed

lemma publishOffset_protocol:
  "publishOffset env pg offset nOffset endPosition tr = (ok, pg', env', tr') \<Longrightarrow>
   \<exists>new. tr' = tr @ new \<and> publishing offset nOffset new \<and>
         replay sz type env pg new = Some (pg', env')"
proof (induction env pg offset nOffset endPosition tr rule: publishOffset.induct)
  case (1 env pg offset nOffset endPosition tr)
  show ?case
  proof (cases "offset < nOffset")
    case False
    then have "tr' = tr" "pg' = pg" "env' = env"
      using "1.prems" by (subst (asm) publishOffset.simps; simp)+
    then show ?thesis using False by (intro exI [of _ "[]"]) simp
  next
    case True
    define pg1 where "pg1 = interfere env pg"
    define found where "found = mOffset pg1"
    define tr1 where "tr1 = tr @ [CasOffset offset nOffset found]"
    show ?thesis
    proof (cases "found = offset \<or> found AND 1 = 0")
      case stop: True
      then have "tr' = tr @ [CasOffset offset nOffset found]" "env' = tl env"
        "pg' = (if found = offset then pg1\<lparr>mOffset := nOffset\<rparr> else pg1)"
        using "1.prems" True
        by (subst (asm) publishOffset.simps; auto simp add: Let_def pg1_def found_def split: if_splits)+
      then show ?thesis
        using True stop
        by (intro exI [of _ "[CasOffset offset nOffset found]"])
           (simp add: Let_def pg1_def [symmetric] found_def [symmetric])
    next
      case go: False
      have rec: "publishOffset (tl env) pg1 found nOffset endPosition tr1 = (ok, pg', env', tr')"
        using "1.prems" True go
        by (subst (asm) publishOffset.simps) (simp add: Let_def pg1_def found_def tr1_def)
      from go have nf: "found \<noteq> offset" and ns: "found AND 1 \<noteq> 0" by simp_all
      from "1.IH" [OF True pg1_def found_def tr1_def nf ns rec]
      obtain new where new: "tr' = tr1 @ new" "publishing found nOffset new"
        "replay sz type (tl env) pg1 new = Some (pg', env')" by blast
      show ?thesis
        using new True go
        by (intro exI [of _ "CasOffset offset nOffset found # new"])
           (simp add: tr1_def Let_def pg1_def [symmetric] found_def [symmetric])
    qed
  qed
qed

lemma acquireLoop_protocol:
  assumes run: "acquireLoop P0 self0 sz0 entrySize0 type0 offset0 env0 pg0 position0 tr0 = Some y0"
  shows "0 < LOG_ENTRY_SIZE P0 \<and> LOG_ENTRY_SIZE P0 \<le> 16 \<longrightarrow>
         (\<forall>res pg' env' tr'. y0 = Inr (res, pg', env', tr') \<longrightarrow>
           (\<exists>new. tr' = tr0 @ new \<and> probing P0 entrySize0 offset0 position0 new \<and>
                  replay sz0 type0 env0 pg0 new = Some (pg', env')))"
proof (rule acquireLoop.raw_induct
    [where P = "\<lambda>P self sz entrySize type offset env pg position tr y.
         0 < LOG_ENTRY_SIZE P \<and> LOG_ENTRY_SIZE P \<le> 16 \<longrightarrow>
         (\<forall>res pg' env' tr'. y = Inr (res, pg', env', tr') \<longrightarrow>
           (\<exists>new. tr' = tr @ new \<and> probing P entrySize offset position new \<and>
                  replay sz type env pg new = Some (pg', env')))", OF _ run], goal_cases)
  case (1 loop P self sz entrySize type offset env pg position tr y)
  note IH = 1(1) and body = 1(2)
  show ?case
  proof (intro impI allI)
    fix res pg' env' tr'
    assume L: "0 < LOG_ENTRY_SIZE P \<and> LOG_ENTRY_SIZE P \<le> 16"
      and y: "y = Inr (res, pg', env', tr')"
    show "\<exists>new. tr' = tr @ new \<and> probing P entrySize offset position new \<and>
                  replay sz type env pg new = Some (pg', env')"
    proof (cases "MAX_ENTRY_SIZE P < position + entrySize")
      case True
      then have "tr' = tr" "pg' = pg" "env' = env" using body y by (auto simp: Let_def)
      then show ?thesis using True by (intro exI [of _ "[]"]) simp
    next
      case False
      define pg1 where "pg1 = interfere env pg"
      define found where "found = log_entry.mSize (entries pg1 position)"
      define tr1 where "tr1 = tr @ [CasSize position found]"
      have al: "(self + LOG_HEADER_SIZE P + unat position) mod 16 = 8"
        using body False y by (auto simp: Let_def split: if_splits)
      obtain r e' where acq: "tryAcquire (LOG_ENTRY_SIZE P) sz type (entries pg1 position) = Inr (r, e')"
        using body False al y by (auto simp: Let_def pg1_def split: sum.splits)
      show ?thesis
      proof (cases "found = 0")
        case nz: False
        have f: "r = entrySizeFromSize (LOG_ENTRY_SIZE P) (drop_bit 1 found)"
          using acq nz by (auto simp: tryAcquire_def Let_def found_def split: if_splits)
        have rnz: "r \<noteq> 0"
          unfolding f using L by (intro entrySizeFromSize_occupied_nonzero) simp_all
        have rec: "loop P self sz entrySize type offset (tl env) pg1 (position + r) tr1 = Some y"
          using body False al acq rnz by (simp add: Let_def pg1_def tr1_def found_def)
        from IH [OF rec] L y obtain new where new: "tr' = tr1 @ new"
          "probing P entrySize offset (position + r) new"
          "replay sz type (tl env) pg1 new = Some (pg', env')" by blast
        show ?thesis
          using new False nz f
          by (intro exI [of _ "CasSize position found # new"])
             (simp add: tr1_def Let_def pg1_def [symmetric] found_def [symmetric])
      next
        case z: True
        have f: "r = 0"
          "e' = (entries pg1 position)\<lparr>log_entry.mSize := push_bit 1 sz OR 1, mType := type\<rparr>"
          using acq z by (auto simp: tryAcquire_def Let_def found_def split: if_splits)
        define pg2 where "pg2 = pg1\<lparr>entries := (entries pg1)(position := e')\<rparr>"
        define nOffset where "nOffset = push_bit 1 (position + entrySize) OR (1 :: u32)"
        obtain ok pg3 env3 tr3 where
          pub: "publishOffset (tl env) pg2 offset nOffset (position + entrySize) tr1 = (ok, pg3, env3, tr3)"
          by (metis prod_cases4)
        have "y = Inr (if ok then Some position else None, pg3, env3, tr3)"
          using body False al acq f(1) pub
          by (simp add: Let_def pg1_def tr1_def pg2_def nOffset_def found_def)
        then have res: "pg' = pg3" "tr' = tr3" "env' = env3" using y by simp_all
        from publishOffset_protocol [OF pub, of sz type]
        obtain new where new: "tr3 = tr1 @ new" "publishing offset nOffset new"
          "replay sz type (tl env) pg2 new = Some (pg3, env3)" by blast
        show ?thesis
          using new False z res f(2)
          by (intro exI [of _ "CasSize position found # new"])
             (simp add: tr1_def Let_def pg1_def [symmetric] found_def [symmetric]
                pg2_def nOffset_def)
      qed
    qed
  qed
qed

lemma acquireLoop_faults:
  assumes run: "acquireLoop P0 self0 sz0 entrySize0 type0 offset0 env0 pg0 position0 tr0 = Some y0"
  shows "\<forall>f. y0 = Inl f \<longrightarrow> f = misaligned \<or> sz0 = 0 \<or> drop_bit 31 sz0 \<noteq> 0"
proof (rule acquireLoop.raw_induct
    [where P = "\<lambda>P self sz entrySize type offset env pg position tr y.
         \<forall>f. y = Inl f \<longrightarrow> f = misaligned \<or> sz = 0 \<or> drop_bit 31 sz \<noteq> 0", OF _ run], goal_cases)
  case (1 loop P self sz entrySize type offset env pg position tr y)
  note IH = 1(1) and body = 1(2)
  show ?case
  proof (intro allI impI)
    fix f assume y: "y = Inl f"
    show "f = misaligned \<or> sz = 0 \<or> drop_bit 31 sz \<noteq> 0"
    proof (cases "sz = 0 \<or> drop_bit 31 sz \<noteq> 0")
      case True
      then show ?thesis by blast
    next
      case False
      show ?thesis
      proof (cases "MAX_ENTRY_SIZE P < position + entrySize \<or>
                    (self + LOG_HEADER_SIZE P + unat position) mod 16 \<noteq> 8")
        case True
        then show ?thesis using body y by (auto simp: Let_def misaligned_def split: if_splits)
      next
        case go: False
        define pg1 where "pg1 = interfere env pg"
        show ?thesis
        proof (cases "log_entry.mSize (entries pg1 position) = 0")
          case True
          then show ?thesis
            using body y go False
            by (auto simp: Let_def tryAcquire_def pg1_def split: prod.splits)
        next
          case nz: False
          have "loop P self sz entrySize type offset (tl env) pg1
                  (position + entrySizeFromSize (LOG_ENTRY_SIZE P)
                     (drop_bit 1 (log_entry.mSize (entries pg1 position))))
                  (tr @ [CasSize position (log_entry.mSize (entries pg1 position))]) = Some y
                \<or> entrySizeFromSize (LOG_ENTRY_SIZE P)
                     (drop_bit 1 (log_entry.mSize (entries pg1 position))) = 0"
            using body go False nz
            by (auto simp: Let_def tryAcquire_def pg1_def split: if_splits)
          then show ?thesis
          proof
            assume "loop P self sz entrySize type offset (tl env) pg1
                  (position + entrySizeFromSize (LOG_ENTRY_SIZE P)
                     (drop_bit 1 (log_entry.mSize (entries pg1 position))))
                  (tr @ [CasSize position (log_entry.mSize (entries pg1 position))]) = Some y"
            from IH [OF this] y show ?thesis by blast
          next
            assume z: "entrySizeFromSize (LOG_ENTRY_SIZE P)
                     (drop_bit 1 (log_entry.mSize (entries pg1 position))) = 0"
            show ?thesis
              using body y go False nz z
              by (auto simp: Let_def tryAcquire_def pg1_def split: prod.splits)
          qed
        qed
      qed
    qed
  qed
qed

lemma entrySizeFromSize_le:
  assumes "L \<le> 16"
  shows "unat (entrySizeFromSize L (drop_bit 1 (w :: u32))) \<le> 2 ^ 31 + 30"
proof -
  have L: "unat L \<le> 16" using assms by (simp add: word_le_nat_alt)
  have b: "unat (drop_bit 1 w) + unat L + 16 < 2 ^ 32"
    using drop_bit_1_bound [of w] L by simp
  have "((unat (drop_bit 1 w) + unat L + 15) div 16) * 16 \<le> unat (drop_bit 1 w) + unat L + 15"
    by simp
  then show ?thesis
    using entrySizeFromSize_unat [OF b] drop_bit_1_bound [of w] L by simp
qed

lemma acquireLoop_returns:
  assumes L: "LOG_ENTRY_SIZE P \<le> 16" and M: "MAX_ENTRY_SIZE P < 2 ^ 29"
    and es: "entrySize \<le> MAX_ENTRY_SIZE P"
  shows "unat position + unat entrySize < 2 ^ 32 \<Longrightarrow>
         \<exists>r. acquireLoop P self sz entrySize type offset env pg position tr = Some r"
proof (induction "unat (MAX_ENTRY_SIZE P) + 1 - unat position" arbitrary: position env pg tr
    rule: less_induct)
  case less
  have Mn: "unat (MAX_ENTRY_SIZE P) < 2 ^ 29" using M by (simp add: word_less_nat_alt)
  have en: "unat entrySize \<le> unat (MAX_ENTRY_SIZE P)" using es by (simp add: word_le_nat_alt)
  have sum: "unat (position + entrySize) = unat position + unat entrySize"
    using less.prems by (simp add: unat_word_ariths)
  show ?case
  proof (cases "MAX_ENTRY_SIZE P < position + entrySize \<or>
                (self + LOG_HEADER_SIZE P + unat position) mod 16 \<noteq> 8")
    case True
    then show ?thesis by (subst acquireLoop.simps) (auto simp: Let_def)
  next
    case go: False
    then have "unat position + unat entrySize \<le> unat (MAX_ENTRY_SIZE P)"
      using sum by (simp add: word_less_nat_alt not_less)
    then have pm: "unat position \<le> unat (MAX_ENTRY_SIZE P)" by simp
    define pg1 where "pg1 = interfere env pg"
    show ?thesis
    proof (cases "tryAcquire (LOG_ENTRY_SIZE P) sz type (entries pg1 position)")
      case (Inl f)
      then show ?thesis
        using go by (subst acquireLoop.simps) (simp add: Let_def pg1_def)
    next
      case (Inr x)
      obtain r e' where x: "x = (r, e')" by (cases x)
      show ?thesis
      proof (cases "r = 0")
        case True
        then show ?thesis
          using go Inr x
          by (subst acquireLoop.simps) (simp add: Let_def pg1_def split: prod.splits)
      next
        case skip: False
        have "r = entrySizeFromSize (LOG_ENTRY_SIZE P)
                    (drop_bit 1 (log_entry.mSize (entries pg1 position)))"
          using tryAcquire_cases [OF Inr [unfolded x]] skip by auto
        then have rb: "unat r \<le> 2 ^ 31 + 30" using entrySizeFromSize_le [OF L] by simp
        have rp: "0 < unat r" using skip by (simp add: unat_gt_0)
        have nw: "unat (position + r) = unat position + unat r"
          using pm Mn rb by (simp add: unat_word_ariths)
        have m: "unat (MAX_ENTRY_SIZE P) + 1 - unat (position + r) <
                 unat (MAX_ENTRY_SIZE P) + 1 - unat position"
          using nw rp pm by simp
        have inv: "unat (position + r) + unat entrySize < 2 ^ 32"
          using nw pm Mn rb en by simp
        from less.hyps [OF m inv, of "tl env" pg1
            "tr @ [CasSize position (log_entry.mSize (entries pg1 position))]"]
        obtain y where "acquireLoop P self sz entrySize type offset (tl env) pg1 (position + r)
             (tr @ [CasSize position (log_entry.mSize (entries pg1 position))]) = Some y" by blast
        then show ?thesis
          using go Inr x skip
          by (subst acquireLoop.simps) (simp add: Let_def pg1_def)
      qed
    qed
  qed
qed

text \<open>
  C2. With \<open>LOG_ENTRY_SIZE\<close> between 1 and 16, pages below \<open>2^29\<close> bytes and an
  entry that fits into a page, \<open>appendEntry\<close> returns under any interference of other
  threads. It fails an assertion only on a page it found unsealed, when the size is 0 or
  has its top bit set, or when \<open>data()\<close> or the loaded position is not aligned.
  Otherwise its atomic operations follow the protocol of lines 59-107, what they found is
  what the page held, and the page it leaves is the page these operations and the other
  threads made. It returns null
  exactly when (a) the loaded offset was sealed, (b) no position was acquired and the next
  one leaves no room, or (c) a position was acquired and the compare-and-swap on the
  offset then found the page sealed below the end of the entry; otherwise it returns the
  entry it acquired. In case (c), when other threads leave acquired entries in place, the
  entry is still in the page with the size field of the requested size.
\<close>

theorem appendEntry_null_cases:
  assumes L: "0 < LOG_ENTRY_SIZE P" "LOG_ENTRY_SIZE P \<le> 16"
    and M: "MAX_ENTRY_SIZE P < 2 ^ 29" and es: "entrySize \<le> MAX_ENTRY_SIZE P"
  shows "\<exists>r. appendEntry P self sz entrySize type env pg = Some r \<and>
           (\<forall>f. r = Inl f \<longrightarrow>
              mOffset (interfere env pg) AND 1 \<noteq> 0 \<and>
              (sz = 0 \<or> drop_bit 31 sz \<noteq> 0 \<or>
               \<not> ((self + LOG_HEADER_SIZE P) mod 16 = 8 \<and>
                  drop_bit 1 (mOffset (interfere env pg)) mod 16 = 0))) \<and>
           (\<forall>res pg' env' tr. r = Inr (res, pg', env', tr) \<longrightarrow>
              protocol P entrySize tr \<and> replay sz type env pg tr = Some (pg', env') \<and>
              (res = None \<longleftrightarrow>
                 sealed_before tr \<or> no_position P entrySize tr \<or> seal_raced entrySize tr) \<and>
              (case res of None \<Rightarrow> True | Some pos \<Rightarrow> acquisitions tr = [pos]) \<and>
              (seal_raced entrySize tr \<and> list_all keeps_acquired env \<longrightarrow>
                 abandoned sz (acquisitions tr) pg'))"
proof (cases "mOffset (interfere env pg) AND 1 = 0")
  case True
  then have "appendEntry P self sz entrySize type env pg =
      Some (Inr (None, interfere env pg, tl env, [LoadOffset (mOffset (interfere env pg))]))"
    by (simp add: appendEntry_def Let_def)
  then show ?thesis
    using True by (simp add: protocol_def sealed_before_def seal_raced_def Let_def)
next
  case False
  let ?off = "mOffset (interfere env pg)"
  let ?pg0 = "interfere env pg"
  have eq: "appendEntry P self sz entrySize type env pg =
        acquireLoop P self sz entrySize type ?off (tl env) ?pg0 (drop_bit 1 ?off) [LoadOffset ?off]"
    using False by (simp add: appendEntry_def Let_def)
  have "unat entrySize < 2 ^ 29" using M es by (simp add: word_less_nat_alt word_le_nat_alt)
  then have "unat (drop_bit 1 ?off) + unat entrySize < 2 ^ 32"
    using drop_bit_1_bound [of ?off] by simp
  from acquireLoop_returns [OF L(2) M es this]
  obtain r where r: "acquireLoop P self sz entrySize type ?off (tl env) ?pg0 (drop_bit 1 ?off)
      [LoadOffset ?off] = Some r" by blast
  have faults: "\<forall>f. r = Inl f \<longrightarrow>
              ?off AND 1 \<noteq> 0 \<and>
              (sz = 0 \<or> drop_bit 31 sz \<noteq> 0 \<or>
               \<not> ((self + LOG_HEADER_SIZE P) mod 16 = 8 \<and> drop_bit 1 ?off mod 16 = 0))"
  proof (intro allI impI conjI)
    show "?off AND 1 \<noteq> 0" by (rule False)
  next
    fix f assume f: "r = Inl f"
    from acquireLoop_faults [OF r] f have c: "f = misaligned \<or> sz = 0 \<or> drop_bit 31 sz \<noteq> 0"
      by blast
    have m: "\<not> ((self + LOG_HEADER_SIZE P) mod 16 = 8 \<and> drop_bit 1 ?off mod 16 = 0)"
      if "f = misaligned"
    proof
      assume a: "(self + LOG_HEADER_SIZE P) mod 16 = 8 \<and> drop_bit 1 ?off mod 16 = 0"
      have t: "list_all (probe_aligned P self) [LoadOffset ?off]"
        "entrySize mod 16 = 0 \<longrightarrow> list_all publish_aligned [LoadOffset ?off]"
        by (simp_all add: probe_aligned_def publish_aligned_def)
      from acquireLoop_aligned [OF r] a False t have "r \<noteq> Inl misaligned" by simp
      then show False using f that by simp
    qed
    have pl: "\<And>X Y1 Y2 Z. (X \<Longrightarrow> \<not> Z) \<Longrightarrow> X \<or> Y1 \<or> Y2 \<Longrightarrow> Y1 \<or> Y2 \<or> \<not> Z"
      by blast
    show "sz = 0 \<or> drop_bit 31 sz \<noteq> 0 \<or>
              \<not> ((self + LOG_HEADER_SIZE P) mod 16 = 8 \<and> drop_bit 1 ?off mod 16 = 0)"
      by (rule pl [OF m c])
  qed
  have results: "\<forall>res pg' env' tr. r = Inr (res, pg', env', tr) \<longrightarrow>
              protocol P entrySize tr \<and> replay sz type env pg tr = Some (pg', env') \<and>
              (res = None \<longleftrightarrow>
                 sealed_before tr \<or> no_position P entrySize tr \<or> seal_raced entrySize tr) \<and>
              (case res of None \<Rightarrow> True | Some pos \<Rightarrow> acquisitions tr = [pos]) \<and>
              (seal_raced entrySize tr \<and> list_all keeps_acquired env \<longrightarrow>
                 abandoned sz (acquisitions tr) pg')"
  proof (intro allI impI)
    fix res pg' env' tr assume y: "r = Inr (res, pg', env', tr)"
    from acquireLoop_protocol [OF r] L y obtain new where
      new: "tr = [LoadOffset ?off] @ new" "probing P entrySize ?off (drop_bit 1 ?off) new"
        "replay sz type (tl env) ?pg0 new = Some (pg', env')" by blast
    have p: "protocol P entrySize tr" using new False by (simp add: protocol_def)
    have rp: "replay sz type env pg tr = Some (pg', env')" using new by (simp add: Let_def)
    from acquireLoop_outcome [OF r] L False y
    have "(res = None \<longleftrightarrow> no_position P entrySize tr \<or> seal_raced entrySize tr) \<and>
            \<not> sealed_before tr \<and>
            (case res of None \<Rightarrow> True | Some pos \<Rightarrow> acquisitions tr = [pos]) \<and>
            (seal_raced entrySize tr \<and> list_all keeps_acquired (tl env) \<longrightarrow>
               abandoned sz (acquisitions tr) pg')"
      by simp
    then show "protocol P entrySize tr \<and> replay sz type env pg tr = Some (pg', env') \<and>
              (res = None \<longleftrightarrow>
                 sealed_before tr \<or> no_position P entrySize tr \<or> seal_raced entrySize tr) \<and>
              (case res of None \<Rightarrow> True | Some pos \<Rightarrow> acquisitions tr = [pos]) \<and>
              (seal_raced entrySize tr \<and> list_all keeps_acquired env \<longrightarrow>
                 abandoned sz (acquisitions tr) pg')"
      using p rp list_all_tl [of keeps_acquired env] by blast
  qed
  show ?thesis unfolding eq using r faults results by blast
qed

theorem appendEntry_null_cases_witness:
  "0 < LOG_ENTRY_SIZE small_log \<and> LOG_ENTRY_SIZE small_log \<le> 16 \<and>
   MAX_ENTRY_SIZE small_log < 2 ^ 29 \<and> (32 :: u32) \<le> MAX_ENTRY_SIZE small_log \<and>
   appendEntry small_log 4096 10 32 7 [id, id, LogPage_seal] fresh_page =
     Some (Inr (None,
                fresh_page\<lparr>entries := (entries fresh_page)(0 := \<lparr>mSize = 21, mType = 7\<rparr>), mOffset := 0\<rparr>,
                [], [LoadOffset 1, CasSize 0 0, CasOffset 1 65 0])) \<and>
   protocol small_log 32 [LoadOffset 1, CasSize 0 0, CasOffset 1 65 0] \<and>
   replay 10 7 [id, id, LogPage_seal] fresh_page [LoadOffset 1, CasSize 0 0, CasOffset 1 65 0] =
     Some (fresh_page\<lparr>entries := (entries fresh_page)(0 := \<lparr>mSize = 21, mType = 7\<rparr>), mOffset := 0\<rparr>, []) \<and>
   seal_raced 32 [LoadOffset 1, CasSize 0 0, CasOffset 1 65 0] \<and>
   list_all keeps_acquired [id, id, LogPage_seal] \<and>
   abandoned 10 (acquisitions [LoadOffset 1, CasSize 0 0, CasOffset 1 65 0])
     (fresh_page\<lparr>entries := (entries fresh_page)(0 := \<lparr>mSize = 21, mType = 7\<rparr>), mOffset := 0\<rparr>) \<and>
   appendEntry small_log 4096 10 32 7 [] busy_page =
     Some (Inr (Some 32,
                busy_page\<lparr>entries := (entries busy_page)(32 := \<lparr>mSize = 21, mType = 7\<rparr>), mOffset := 129\<rparr>,
                [], [LoadOffset 1, CasSize 0 21, CasSize 32 0, CasOffset 1 129 1])) \<and>
   protocol small_log 32 [LoadOffset 1, CasSize 0 21, CasSize 32 0, CasOffset 1 129 1] \<and>
   replay 10 7 [] busy_page [LoadOffset 1, CasSize 0 21, CasSize 32 0, CasOffset 1 129 1] =
     Some (busy_page\<lparr>entries := (entries busy_page)(32 := \<lparr>mSize = 21, mType = 7\<rparr>), mOffset := 129\<rparr>, []) \<and>
   acquisitions [LoadOffset 1, CasSize 0 21, CasSize 32 0, CasOffset 1 129 1] = [32]"
proof -
  have a: "0 < LOG_ENTRY_SIZE small_log" "LOG_ENTRY_SIZE small_log \<le> 16"
    "MAX_ENTRY_SIZE small_log < 2 ^ 29" "(32 :: u32) \<le> MAX_ENTRY_SIZE small_log"
    by (simp_all add: small_log_def)
  have r: "seal_raced 32 [LoadOffset 1, CasSize 0 0, CasOffset 1 65 0]"
    by (simp add: seal_raced_def seal_observed_def)
  have k: "list_all keeps_acquired [id, id, LogPage_seal]"
    by (simp add: keeps_acquired_def LogPage_seal_def)
  from appendEntry_null_cases [OF a, of 4096 10 7 "[id, id, LogPage_seal]" fresh_page]
    appendEntry_null_cases [OF a, of 4096 10 7 "[]" busy_page] r k
  show ?thesis using a raced_run busy_run by simp
qed

section \<open>Properties of the logs\<close>

subsection \<open>Walking a chain of pages\<close>

lemma segment_countPages:
  "segment h a e ps \<Longrightarrow> countPages h a e n = Some (Inr (n + length ps))"
proof (induction ps arbitrary: a n)
  case Nil
  then show ?case by (subst countPages.simps) simp
next
  case (Cons p ps)
  then show ?case by (subst countPages.simps) auto
qed

lemma segment_freePage_closure:
  "segment h a e ps \<Longrightarrow> freePage_closure h pm a e = Some (Inr (rev ps @ pm))"
proof (induction ps arbitrary: a pm)
  case Nil
  then show ?case by (subst freePage_closure.simps) simp
next
  case (Cons p ps)
  then show ?case by (subst freePage_closure.simps) auto
qed

lemma segment_update:
  "b \<notin> set ps \<Longrightarrow> segment (h(b := x)) a e ps = segment h a e ps"
  by (induction ps arbitrary: a) auto

subsection \<open>truncateLog\<close>

text \<open>
  C7. \<open>truncateLog(oldTail, newTail)\<close> returns true exactly when the tail equals
  \<open>oldTail\<close>; when it returns false the log is unchanged; when it returns true the tail
  is \<open>newTail\<close> and, only if the two positions lie on different pages, one closure for
  \<open>(oldTail.page, newTail.page)\<close> has been handed to deferred reclamation. When that
  closure runs it frees exactly the pages from \<open>oldTail\<close>'s page up to but excluding
  \<open>newTail\<close>'s page.
\<close>

theorem truncateLog_cas:
  "fst (truncateLog s old new) = (mTail s = old) \<and>
   (mTail s \<noteq> old \<longrightarrow> snd (truncateLog s old new) = s) \<and>
   (mTail s = old \<longrightarrow>
      snd (truncateLog s old new) =
        s\<lparr>mTail := new,
          deferred := deferred s @ (if fst old \<noteq> fst new then [(fst old, fst new)] else [])\<rparr>) \<and>
   (\<forall>ps pm. segment (heap s) (fst old) (fst new) ps \<longrightarrow>
      freePage_closure (heap s) pm (fst old) (fst new) = Some (Inr (rev ps @ pm)))"
  by (auto simp: truncateLog_def Let_def freePage_def segment_freePage_closure)

theorem truncateLog_cas_witness:
  "truncateLog toy_ordered (Some 10, 0) (Some 30, 16) =
     (True, toy_ordered\<lparr>mTail := (Some 30, 16), deferred := [(Some 10, Some 30)]\<rparr>) \<and>
   truncateLog toy_ordered (Some 20, 0) (Some 30, 16) = (False, toy_ordered) \<and>
   segment (heap toy_ordered) (Some 10) (Some 30) [10, 20] \<and>
   freePage_closure (heap toy_ordered) [] (Some 10) (Some 30) = Some (Inr [20, 10])"
proof -
  have t: "mTail toy_ordered = (Some 10, 0)" "mTail toy_ordered \<noteq> (Some 20, 0)"
    "deferred toy_ordered = []"
    by (simp_all add: toy_ordered_def)
  have s: "segment (heap toy_ordered) (Some 10) (Some 30) [10, 20]"
    by (simp add: toy_ordered_def three_pages_def)
  then have s': "segment (heap toy_ordered) (fst (Some 10, 0 :: u32)) (fst (Some 30, 16 :: u32)) [10, 20]"
    by simp
  note a = truncateLog_cas [of toy_ordered "(Some 10, 0)" "(Some 30, 16)"]
  note b = truncateLog_cas [of toy_ordered "(Some 20, 0)" "(Some 30, 16)"]
  have 1: "truncateLog toy_ordered (Some 10, 0) (Some 30, 16) =
     (True, toy_ordered\<lparr>mTail := (Some 30, 16), deferred := [(Some 10, Some 30)]\<rparr>)"
    using a t by (simp add: prod_eq_iff)
  have 2: "truncateLog toy_ordered (Some 20, 0) (Some 30, 16) = (False, toy_ordered)"
    using b t by (simp add: prod_eq_iff)
  have 3: "freePage_closure (heap toy_ordered) [] (Some 10) (Some 30) = Some (Inr [20, 10])"
    using a [THEN conjunct2, THEN conjunct2, THEN conjunct2, rule_format, OF s', of "[]"] by simp
  show ?thesis using 1 2 3 s by simp
qed

subsection \<open>erase\<close>

text \<open>
  C8, as amended. \<open>erase(begin, end)\<close> does nothing when \<open>begin = end\<close>. Otherwise,
  when the pages \<open>ps\<close> lie between \<open>begin->next\<close> and \<open>end\<close> (and \<open>begin\<close> is not
  among them): the tail becomes \<open>begin\<close> if \<open>end\<close> is null, \<open>begin->next\<close> becomes
  \<open>end\<close>, the page counter goes down by the number of pages in \<open>ps\<close>, and, unless
  \<open>ps\<close> is empty, one closure for \<open>(old next, end)\<close> is handed to deferred reclamation;
  when it runs it frees exactly the pages \<open>ps\<close>.
\<close>

theorem erase_detaches:
  assumes "segment (heap s) (mNext (heap s b)) end ps" and "b \<notin> set ps"
  shows "erase s (Some b) end =
           Some (Inr (if Some b = end then s
                      else s\<lparr>unordered_log.mTail := (if end = None then Some b else unordered_log.mTail s),
                             heap := (heap s)(b := (heap s b)\<lparr>mNext := end\<rparr>),
                             mPages := mPages s - of_nat (length ps),
                             deferred := deferred s @
                               (if ps = [] then [] else [(mNext (heap s b), end)])\<rparr>)) \<and>
         freePage_closure ((heap s)(b := (heap s b)\<lparr>mNext := end\<rparr>)) pm (mNext (heap s b)) end =
           Some (Inr (rev ps @ pm))"
proof -
  let ?h = "(heap s)(b := (heap s b)\<lparr>mNext := end\<rparr>)"
  have seg: "segment ?h (mNext (heap s b)) end ps"
    using assms by (simp add: segment_update)
  have cnt: "countPages ?h (mNext (heap s b)) end 0 = Some (Inr (length ps))"
    using segment_countPages [OF seg, of 0] by simp
  have nil: "(mNext (heap s b) = end) = (ps = [])"
    using assms(1) by (cases ps) auto
  have A: "erase s (Some b) end =
           Some (Inr (if Some b = end then s
                      else s\<lparr>unordered_log.mTail := (if end = None then Some b else unordered_log.mTail s),
                             heap := ?h,
                             mPages := mPages s - of_nat (length ps),
                             deferred := deferred s @
                               (if ps = [] then [] else [(mNext (heap s b), end)])\<rparr>))"
  proof (cases "Some b = end")
    case True
    then have "end = Some b" by simp
    then show ?thesis by (simp add: erase_def)
  next
    case False
    show ?thesis
    proof (cases "ps = []")
      case True
      then show ?thesis using False nil by (cases "end") (auto simp add: erase_def Let_def)
    next
      case ne: False
      then show ?thesis using False nil cnt
        by (cases "end") (auto simp add: erase_def Let_def freePage_def)
    qed
  qed
  show ?thesis using A segment_freePage_closure [OF seg] by simp
qed

theorem erase_detaches_witness:
  "segment (heap toy_unordered) (mNext (heap toy_unordered 10)) None [20, 30] \<and>
   10 \<notin> set [20, 30 :: nat] \<and>
   erase toy_unordered (Some 10) None =
     Some (Inr (toy_unordered\<lparr>unordered_log.mTail := Some 10,
                  heap := (heap toy_unordered)(10 := (heap toy_unordered 10)\<lparr>mNext := None\<rparr>),
                  mPages := 1, deferred := [(Some 20, None)]\<rparr>)) \<and>
   freePage_closure ((heap toy_unordered)(10 := (heap toy_unordered 10)\<lparr>mNext := None\<rparr>)) []
     (Some 20) None = Some (Inr [30, 20])"
proof -
  have s: "segment (heap toy_unordered) (mNext (heap toy_unordered 10)) None [20, 30]"
    by (simp add: toy_unordered_def three_pages_def fresh_page_def)
  have n: "10 \<notin> set [20, 30 :: nat]" by simp
  have v: "mNext (heap toy_unordered 10) = Some 20" "mPages toy_unordered = 3" "deferred toy_unordered = []"
    by (simp_all add: toy_unordered_def three_pages_def)
  from erase_detaches [OF s n, of "[]"] v
  show ?thesis using s by simp
qed

text \<open>
  The claim C8 as stated, without the guard: with \<open>begin = end\<close> = page 10, \<open>erase\<close>
  returns at line 171; \<open>begin->next\<close> is still page 20 and not \<open>end\<close>, nothing is
  enqueued and the page counter is unchanged.
\<close>

theorem erase_same_page_is_noop:
  "erase toy_unordered (Some 10) (Some 10) = Some (Inr toy_unordered) \<and>
   mNext (heap toy_unordered 10) = Some 20 \<and> deferred toy_unordered = [] \<and>
   mPages toy_unordered = 3"
  by (simp add: erase_def toy_unordered_def three_pages_def)

section \<open>Properties of OrderedLogImpl\<close>

subsection \<open>Words, once more\<close>

lemma clear_low_bit_drop: "drop_bit 1 ((w :: u32) AND NOT 1) = drop_bit 1 w"
proof (rule bit_eqI)
  fix n
  show "bit (drop_bit 1 (w AND NOT 1)) n = bit (drop_bit 1 w) n"
    by (simp only: bit_drop1 bit_and_iff bit_not_iff bit_1_iff) (auto dest: bit_imp_possible_bit)
qed

lemma clear_low_bit_and: "((w :: u32) AND NOT 1) AND 1 = 0"
  by (rule bit_eqI) (auto simp: bit_and_iff bit_not_iff bit_1_iff)

lemma add_no_wrap: "(x :: u32) < x + y \<Longrightarrow> unat (x + y) = unat x + unat y"
proof -
  assume "x < x + y"
  then have "x \<le> x + y" by simp
  then have "unat x + unat y < 2 ^ 32"
    by (simp add: no_olen_add_nat)
  then show ?thesis by (simp add: unat_word_ariths)
qed

lemma round16_ge: "(a :: nat) \<le> ((a + 15) div 16) * 16"
  using div_mult_mod_eq [of "a + 15" 16] mod_less_divisor [of 16 "a + 15"] by linarith

lemma entrySizeFromSize_ge:
  assumes "0 < L" "L \<le> 16"
  shows "unat L \<le> unat (entrySizeFromSize L (drop_bit 1 (w :: u32)))"
proof -
  have L: "0 < unat L" "unat L \<le> 16"
    using assms by (simp_all add: word_less_nat_alt word_le_nat_alt)
  have b: "unat (drop_bit 1 w) + unat L + 16 < 2 ^ 32"
    using drop_bit_1_bound [of w] L by simp
  have "unat (drop_bit 1 w) + unat L \<le> ((unat (drop_bit 1 w) + unat L + 15) div 16) * 16"
    by (rule round16_ge)
  then show ?thesis
    using entrySizeFromSize_unat [OF b] by simp
qed

lemma odd_word_unat: "(w :: u32) AND 1 \<noteq> 0 \<Longrightarrow> unat w = 2 * unat (drop_bit 1 w) + 1"
proof -
  assume "w AND 1 \<noteq> 0"
  then have "bit w 0" by (auto simp: and_one_eq bit_0 mod_2_eq_odd)
  then have "bit (unat w) 0" by (simp only: bit_unsigned_iff) simp
  then have "odd (unat w)" by (simp add: bit_0)
  then have "unat w mod 2 = 1" by (simp add: odd_iff_mod_2_eq_one)
  then have "unat w = 2 * (unat w div 2) + 1"
    using div_mult_mod_eq [of "unat w" 2] by linarith
  then show ?thesis by (simp add: drop_bit_eq_div unat_div)
qed

lemma published_unat:
  "(e :: u32) < 2 ^ 31 \<Longrightarrow> unat (push_bit 1 e OR 1) = 2 * unat e + 1"
proof -
  assume e: "e < 2 ^ 31"
  have "unat (push_bit 1 e OR 1) = 2 * unat (drop_bit 1 (push_bit 1 e OR 1)) + 1"
    using published_low_bit [of e] by (intro odd_word_unat) simp
  then show ?thesis using published_position [OF e] by simp
qed

subsection \<open>Sequences of entries and chains of pages\<close>

lemma entries_from_bounds:
  "entries_from L ents pos xs e \<Longrightarrow> pos \<le> e \<and> (\<forall>x\<in>set xs. pos \<le> x \<and> x < e)"
proof (induction xs arbitrary: pos)
  case Nil
  then show ?case by simp
next
  case (Cons x xs)
  from Cons.prems have a: "x = pos" "x < entry_end L ents x" "entry_end L ents x \<le> e"
    and b: "entries_from L ents (entry_end L ents x) xs e" by auto
  from Cons.IH [OF b] have c: "\<forall>y\<in>set xs. entry_end L ents x \<le> y \<and> y < e" by simp
  have "pos \<le> e" using a by (auto intro: less_imp_le order_trans)
  moreover have "\<forall>y\<in>set xs. pos \<le> y \<and> y < e"
    using a c by (auto intro: less_imp_le order_trans)
  moreover have "x < e" using a by (auto intro: order.strict_trans2)
  ultimately show ?case using a by auto
qed

lemma entries_from_cong:
  "(\<And>x. x \<in> set xs \<Longrightarrow> mSize (ents' x) = mSize (ents x)) \<Longrightarrow>
   entries_from L ents' pos xs e = entries_from L ents pos xs e"
  by (induction xs arbitrary: pos) (auto simp: entry_end_def)

lemma entries_from_drop_cong:
  "(\<And>x. x \<in> set xs \<Longrightarrow> drop_bit 1 (mSize (ents' x)) = drop_bit 1 (mSize (ents x))) \<Longrightarrow>
   entries_from L ents' pos xs e = entries_from L ents pos xs e"
  by (induction xs arbitrary: pos) (auto simp: entry_end_def)

lemma entries_from_append:
  "entries_from L ents a xs b \<Longrightarrow> entries_from L ents b ys c \<Longrightarrow>
   entries_from L ents a (xs @ ys) c"
proof (induction xs arbitrary: a)
  case Nil
  then show ?case by simp
next
  case (Cons x xs)
  from Cons.prems(1) have a: "x = a" "drop_bit 1 (mSize (ents x)) \<noteq> 0" "x < entry_end L ents x"
    and r: "entries_from L ents (entry_end L ents x) xs b" by auto
  have "b \<le> c" using entries_from_bounds [OF Cons.prems(2)] by simp
  moreover have "entry_end L ents x \<le> b"
    using entries_from_bounds [OF r] by simp
  ultimately have "entry_end L ents x \<le> c" by (rule order_trans [rotated])
  then show ?case using a Cons.IH [OF r Cons.prems(2)] by simp
qed

lemma segment_next:
  "segment h a None ps \<Longrightarrow> j < length ps \<Longrightarrow>
   mNext (h (ps ! j)) = (if Suc j < length ps then Some (ps ! Suc j) else None)"
proof (induction ps arbitrary: a j)
  case Nil
  then show ?case by simp
next
  case (Cons p ps)
  show ?case
  proof (cases j)
    case 0
    then show ?thesis using Cons.prems by (cases ps) auto
  next
    case (Suc i)
    then show ?thesis using Cons.prems Cons.IH [of "mNext (h p)" i] by auto
  qed
qed

subsection \<open>advanceSealedHead within a page\<close>

lemma cursor_room:
  assumes wf: "wf_params cfg"
    and a: "x < entry_end (LOG_ENTRY_SIZE cfg) ents x"
    and b: "entry_end (LOG_ENTRY_SIZE cfg) ents x \<le> e"
    and c: "e \<le> MAX_ENTRY_SIZE cfg"
  shows "x \<le> MAX_ENTRY_SIZE cfg - LOG_ENTRY_SIZE cfg"
proof -
  let ?L = "LOG_ENTRY_SIZE cfg" and ?M = "MAX_ENTRY_SIZE cfg"
  let ?s = "entrySizeFromSize ?L (drop_bit 1 (mSize (ents x)))"
  have L: "0 < ?L" "?L \<le> 16" "16 \<le> ?M" using wf by (simp_all add: wf_params_def)
  have "unat (x + ?s) = unat x + unat ?s"
    using a by (intro add_no_wrap) (simp add: entry_end_def)
  moreover have "unat (x + ?s) \<le> unat ?M"
    using b c by (simp add: entry_end_def word_le_nat_alt)
  moreover have "unat ?L \<le> unat ?s" by (rule entrySizeFromSize_ge [OF L(1,2)])
  ultimately have le: "unat x + unat ?L \<le> unat ?M" by simp
  have "?L \<le> ?M" using L by simp
  then have "unat (?M - ?L) = unat ?M - unat ?L" by (simp add: unat_sub)
  then show ?thesis using le by (simp add: word_le_nat_alt)
qed

lemma zero_room: "wf_params cfg \<Longrightarrow> 0 \<le> MAX_ENTRY_SIZE cfg - LOG_ENTRY_SIZE cfg"
  by simp

lemma sealed_upto_step:
  assumes "sealed_upto cfg pg pos"
    and "entries_from (LOG_ENTRY_SIZE cfg) (entries pg) pos (pos # ys) e"
    and "entry_sealed (entries pg pos)"
  shows "sealed_upto cfg pg (entry_end (LOG_ENTRY_SIZE cfg) (entries pg) pos)"
proof -
  let ?L = "LOG_ENTRY_SIZE cfg"
  from assms(1) obtain xs where xs: "entries_from ?L (entries pg) 0 xs pos"
    "list_all (\<lambda>x. entry_sealed (entries pg x)) xs"
    by (auto simp: sealed_upto_def)
  have one: "entries_from ?L (entries pg) pos [pos] (entry_end ?L (entries pg) pos)"
    using assms(2) by simp
  have "entries_from ?L (entries pg) 0 (xs @ [pos]) (entry_end ?L (entries pg) pos)"
    by (rule entries_from_append [OF xs(1) one])
  moreover have "list_all (\<lambda>x. entry_sealed (entries pg x)) (xs @ [pos])"
    using xs(2) assms(3) by simp
  ultimately show ?thesis unfolding sealed_upto_def by blast
qed

lemma advanceInner_page:
  assumes wf: "wf_params cfg" and ok: "page_ok cfg (h p)"
  shows "entries_from (LOG_ENTRY_SIZE cfg) (entries (h p)) pos ys (used (h p)) \<Longrightarrow>
         sealed_upto cfg (h p) pos \<Longrightarrow> consistent cfg h p pos sz sealed cur \<Longrightarrow>
         stops_in_page cfg h p pos (advanceInner cfg h (Some p, pos) sz sealed cur) \<or>
         crosses_page cfg h p (advanceInner cfg h (Some p, pos) sz sealed cur)"
proof (induction ys arbitrary: pos sz sealed cur)
  case Nil
  then have pos: "pos = used (h p)" by simp
  have free: "mSize (entries (h p) pos) = 0"
    using ok pos by (simp add: page_ok_def)
  have zs: "sz = 0" "sealed"
    using Nil.prems(3) free by (auto simp: consistent_def sizeAndSealed_def split: if_splits)
  have lay: "layout_from cfg (h p) pos"
    using pos by (auto simp: layout_from_def intro: exI [of _ "[]"])
  show ?case
  proof (cases "page_sealed (h p)")
    case False
    have "advanceInner cfg h (Some p, pos) sz sealed cur = Some (Inr ((Some p, pos), sz, sealed, cur))"
      using zs False
      by (subst advanceInner.simps) (simp add: offsetAndSealed_def page_sealed_def)
    then show ?thesis
      using Nil.prems(2,3) lay zs False pos by (auto simp: stops_in_page_def stopped_def)
  next
    case True
    show ?thesis
    proof (cases "mNext (h p)")
      case None
      have "advanceInner cfg h (Some p, pos) sz sealed cur = Some (Inr ((Some p, pos), sz, sealed, cur))"
        using zs True None pos
        by (subst advanceInner.simps) (simp add: offsetAndSealed_def page_sealed_def used_def)
      then show ?thesis
        using Nil.prems(2,3) lay zs None pos by (auto simp: stops_in_page_def stopped_def)
    next
      case (Some q)
      have "advanceInner cfg h (Some p, pos) sz sealed cur =
            advanceInner cfg h (Some q, 0) (fst (sizeAndSealed (entries (h q) 0)))
                 (snd (sizeAndSealed (entries (h q) 0))) (Some (q, 0))"
        using zs True Some pos
        by (subst advanceInner.simps)
           (simp add: offsetAndSealed_def page_sealed_def used_def split: prod.splits)
      then show ?thesis
        using True Some Nil.prems(2) pos by (auto simp: crosses_page_def)
    qed
  qed
next
  case (Cons x ys)
  let ?L = "LOG_ENTRY_SIZE cfg"
  let ?nxt = "entry_end ?L (entries (h p)) pos"
  from Cons.prems(1) have x: "x = pos" and nz: "drop_bit 1 (mSize (entries (h p) pos)) \<noteq> 0"
    and lt: "pos < ?nxt" and le: "?nxt \<le> used (h p)"
    and rest: "entries_from ?L (entries (h p)) ?nxt ys (used (h p))" by auto
  have um: "used (h p) \<le> MAX_ENTRY_SIZE cfg" using ok by (simp add: page_ok_def)
  have room: "pos \<le> MAX_ENTRY_SIZE cfg - ?L"
    by (rule cursor_room [OF wf lt le um])
  have cs: "sz = drop_bit 1 (mSize (entries (h p) pos))"
    "sealed = entry_sealed (entries (h p) pos)" "cur = Some (p, pos)"
    using Cons.prems(3) room by (auto simp: consistent_def sizeAndSealed_def entry_sealed_def)
  have ne: "pos \<noteq> used (h p)" using lt le by auto
  have lay: "layout_from cfg (h p) pos"
    using Cons.prems(1) x unfolding layout_from_def by blast
  show ?case
  proof (cases sealed)
    case False
    have "advanceInner cfg h (Some p, pos) sz sealed cur = Some (Inr ((Some p, pos), sz, sealed, cur))"
      using False by (subst advanceInner.simps) simp
    then show ?thesis
      using Cons.prems(2,3) lay False cs nz ne by (auto simp: stops_in_page_def stopped_def)
  next
    case True
    have nxt: "snd (Some p, pos) + entrySizeFromSize ?L sz = ?nxt"
      using cs by (simp add: entry_end_def)
    have c1: "entries_from ?L (entries (h p)) pos (pos # ys) (used (h p))"
      using Cons.prems(1) x by simp
    have es: "entry_sealed (entries (h p) pos)" using True cs by simp
    have up: "sealed_upto cfg (h p) ?nxt"
      by (rule sealed_upto_step [OF Cons.prems(2) c1 es])
    define sz' where "sz' = (if ?nxt \<le> MAX_ENTRY_SIZE cfg - ?L
        then fst (sizeAndSealed (entries (h p) ?nxt)) else 0)"
    define sealed' where "sealed' = (if ?nxt \<le> MAX_ENTRY_SIZE cfg - ?L
        then snd (sizeAndSealed (entries (h p) ?nxt)) else sealed)"
    define cur' where "cur' = (if ?nxt \<le> MAX_ENTRY_SIZE cfg - ?L then Some (p, ?nxt) else cur)"
    have eq: "advanceInner cfg h (Some p, pos) sz sealed cur =
          advanceInner cfg h (Some p, ?nxt) sz' sealed' cur'"
      using True cs nz nxt
      by (subst advanceInner.simps)
         (simp add: Let_def sz'_def sealed'_def cur'_def entry_end_def split: prod.splits)
    have con: "consistent cfg h p ?nxt sz' sealed' cur'"
      using True by (simp add: consistent_def sz'_def sealed'_def cur'_def)
    from Cons.IH [OF rest up con]
    show ?thesis
    proof
      assume "stops_in_page cfg h p ?nxt (advanceInner cfg h (Some p, ?nxt) sz' sealed' cur')"
      then obtain pos' sz2 sealed2 cur2 where
        r: "advanceInner cfg h (Some p, ?nxt) sz' sealed' cur' =
              Some (Inr ((Some p, pos'), sz2, sealed2, cur2))"
        and p: "?nxt \<le> pos'" "sealed_upto cfg (h p) pos'" "layout_from cfg (h p) pos'"
          "consistent cfg h p pos' sz2 sealed2 cur2" "stopped h p pos' sz2 sealed2"
        unfolding stops_in_page_def by blast
      have "pos \<le> pos'" using lt p(1) by (rule less_imp_le [THEN order_trans])
      then have "stops_in_page cfg h p pos (advanceInner cfg h (Some p, pos) sz sealed cur)"
        unfolding stops_in_page_def eq r using p by blast
      then show ?thesis by simp
    next
      assume "crosses_page cfg h p (advanceInner cfg h (Some p, ?nxt) sz' sealed' cur')"
      then show ?thesis using eq by simp
    qed
  qed
qed

subsection \<open>advanceSealedHead along the chain\<close>

lemma consistent_start:
  "consistent cfg h q 0 (fst (sizeAndSealed (entries (h q) 0)))
     (snd (sizeAndSealed (entries (h q) 0))) (Some (q, 0))"
  by (simp add: consistent_def)

lemma sealed_upto_zero: "sealed_upto cfg pg 0"
  unfolding sealed_upto_def by (rule exI [of _ "[]"]) simp

lemma advanceInner_chain:
  assumes wf: "wf_params cfg" and seg: "segment h a None ps" and pok: "pages_ok cfg h ps"
  shows "k < length ps \<Longrightarrow> passed cfg h ps k pos \<Longrightarrow>
         consistent cfg h (ps ! k) pos sz sealed cur \<Longrightarrow>
         \<exists>k' pos' sz' sealed' cur'.
           advanceInner cfg h (Some (ps ! k), pos) sz sealed cur =
             Some (Inr ((Some (ps ! k'), pos'), sz', sealed', cur')) \<and>
           k \<le> k' \<and> (k = k' \<longrightarrow> pos \<le> pos') \<and> k' < length ps \<and>
           passed cfg h ps k' pos' \<and> consistent cfg h (ps ! k') pos' sz' sealed' cur' \<and>
           stopped h (ps ! k') pos' sz' sealed'"
proof (induction "length ps - k" arbitrary: k pos sz sealed cur rule: less_induct)
  case less
  let ?p = "ps ! k"
  have ok: "page_ok cfg (h ?p)" using pok less.prems(1) by (simp add: pages_ok_def)
  from less.prems(2) have up: "sealed_upto cfg (h ?p) pos" and lay: "layout_from cfg (h ?p) pos"
    and before: "\<forall>j<k. page_sealed (h (ps ! j)) \<and> sealed_upto cfg (h (ps ! j)) (used (h (ps ! j)))"
    and after: "\<forall>j. k < j \<and> j < length ps \<longrightarrow> layout_from cfg (h (ps ! j)) 0"
    by (simp_all add: passed_def)
  from lay obtain ys where ys: "entries_from (LOG_ENTRY_SIZE cfg) (entries (h ?p)) pos ys (used (h ?p))"
    by (auto simp: layout_from_def)
  from advanceInner_page [OF wf ok ys up less.prems(3)]
  show ?case
  proof
    assume "stops_in_page cfg h ?p pos (advanceInner cfg h (Some ?p, pos) sz sealed cur)"
    then obtain pos' sz' sealed' cur' where
      r: "advanceInner cfg h (Some ?p, pos) sz sealed cur = Some (Inr ((Some ?p, pos'), sz', sealed', cur'))"
      and p: "pos \<le> pos'" "sealed_upto cfg (h ?p) pos'" "layout_from cfg (h ?p) pos'"
        "consistent cfg h ?p pos' sz' sealed' cur'" "stopped h ?p pos' sz' sealed'"
      unfolding stops_in_page_def by blast
    have "passed cfg h ps k pos'" using before after p by (simp add: passed_def)
    then show ?thesis using r p less.prems(1) by blast
  next
    assume "crosses_page cfg h ?p (advanceInner cfg h (Some ?p, pos) sz sealed cur)"
    then obtain q where sealed: "page_sealed (h ?p)" "sealed_upto cfg (h ?p) (used (h ?p))"
      and q: "mNext (h ?p) = Some q"
      and r: "advanceInner cfg h (Some ?p, pos) sz sealed cur =
           advanceInner cfg h (Some q, 0) (fst (sizeAndSealed (entries (h q) 0)))
                 (snd (sizeAndSealed (entries (h q) 0))) (Some (q, 0))"
      unfolding crosses_page_def by blast
    have nx: "Suc k < length ps" "q = ps ! Suc k"
      using segment_next [OF seg less.prems(1)] q by (auto split: if_splits)
    have pa: "passed cfg h ps (Suc k) 0"
      unfolding passed_def
    proof (intro conjI allI impI)
      fix j assume "j < Suc k"
      then show "page_sealed (h (ps ! j))" "sealed_upto cfg (h (ps ! j)) (used (h (ps ! j)))"
        using before sealed by (auto simp: less_Suc_eq)
    next
      show "sealed_upto cfg (h (ps ! Suc k)) 0" by (rule sealed_upto_zero)
    next
      show "layout_from cfg (h (ps ! Suc k)) 0" using after nx by simp
    next
      fix j assume "Suc k < j \<and> j < length ps"
      then show "layout_from cfg (h (ps ! j)) 0" using after by simp
    qed
    have m: "length ps - Suc k < length ps - k" using less.prems(1) by simp
    from less.hyps [OF m nx(1) pa consistent_start [of cfg h "ps ! Suc k"]]
    obtain k' pos' sz' sealed' cur' where
      "advanceInner cfg h (Some (ps ! Suc k), 0) (fst (sizeAndSealed (entries (h (ps ! Suc k)) 0)))
                 (snd (sizeAndSealed (entries (h (ps ! Suc k)) 0))) (Some (ps ! Suc k, 0)) =
          Some (Inr ((Some (ps ! k'), pos'), sz', sealed', cur'))"
      "Suc k \<le> k'" "k' < length ps" "passed cfg h ps k' pos'"
      "consistent cfg h (ps ! k') pos' sz' sealed' cur'" "stopped h (ps ! k') pos' sz' sealed'"
      by blast
    then show ?thesis using r nx(2)
      by (intro exI [of _ k'] exI [of _ pos'] exI [of _ sz'] exI [of _ sealed'] exI [of _ cur']) simp
  qed
qed

lemma stopped_blocked:
  assumes seg: "segment h a None ps" and pok: "pages_ok cfg h ps" and k: "k < length ps"
    and st: "stopped h (ps ! k) pos sz sealed"
  shows "blocked h ps k pos"
proof (cases "pos = used (h (ps ! k))")
  case False
  then show ?thesis using st by (simp add: blocked_def stopped_def)
next
  case True
  then have "\<not> page_sealed (h (ps ! k)) \<or> mNext (h (ps ! k)) = None"
    using st by (simp add: stopped_def)
  then have "\<not> Suc k < length ps"
    using segment_next [OF seg k] pok k by (auto simp: pages_ok_def split: if_splits)
  then show ?thesis using True k by (simp add: blocked_def)
qed

lemma recheck_stopped:
  "consistent cfg h p pos sz sealed cur \<Longrightarrow> stopped h p pos sz sealed \<Longrightarrow>
   recheck cfg h (Some p, pos) cur = Inr None"
  by (auto simp: recheck_def consistent_def stopped_def offsetAndSealed_def page_sealed_def
      used_def split: if_splits prod.splits)

lemma advanceSealedHead_spec:
  assumes wf: "wf_params cfg" and seg: "segment (heap s) a None ps"
    and pok: "pages_ok cfg (heap s) ps" and k: "k < length ps"
    and pa: "passed cfg (heap s) ps k pos" and sh: "mSealedHead s = (Some (ps ! k), pos)"
  shows "\<exists>k' pos'.
           advanceSealedHead cfg s (Some (ps ! k), pos) =
             Some (Inr (s\<lparr>mSealedHead := (Some (ps ! k'), pos')\<rparr>)) \<and>
           k \<le> k' \<and> (k = k' \<longrightarrow> pos \<le> pos') \<and> k' < length ps \<and>
           passed cfg (heap s) ps k' pos' \<and> blocked (heap s) ps k' pos'"
proof -
  let ?h = "heap s" and ?p = "ps ! k"
  define sz where "sz = (if pos \<le> MAX_ENTRY_SIZE cfg - LOG_ENTRY_SIZE cfg
      then fst (sizeAndSealed (entries (?h ?p) pos)) else 0)"
  define sealed where "sealed = (if pos \<le> MAX_ENTRY_SIZE cfg - LOG_ENTRY_SIZE cfg
      then snd (sizeAndSealed (entries (?h ?p) pos)) else True)"
  define cur where "cur = (if pos \<le> MAX_ENTRY_SIZE cfg - LOG_ENTRY_SIZE cfg
      then Some (?p, pos) else None)"
  have start: "advanceSealedHead cfg s (Some ?p, pos) =
      advanceOuter cfg s (Some ?p, pos) (Some ?p, pos) sz sealed cur"
    by (simp add: advanceSealedHead_def Let_def sz_def sealed_def cur_def split: prod.splits)
  have con: "consistent cfg ?h ?p pos sz sealed cur"
    by (simp add: consistent_def sz_def sealed_def cur_def)
  from advanceInner_chain [OF wf seg pok k pa con]
  obtain k' pos' sz' sealed' cur' where
    r: "advanceInner cfg ?h (Some ?p, pos) sz sealed cur =
          Some (Inr ((Some (ps ! k'), pos'), sz', sealed', cur'))"
    and p: "k \<le> k'" "k = k' \<longrightarrow> pos \<le> pos'" "k' < length ps" "passed cfg ?h ps k' pos'"
      "consistent cfg ?h (ps ! k') pos' sz' sealed' cur'" "stopped ?h (ps ! k') pos' sz' sealed'"
    by blast
  have "advanceOuter cfg s (Some ?p, pos) (Some ?p, pos) sz sealed cur =
      Some (Inr (s\<lparr>mSealedHead := (Some (ps ! k'), pos')\<rparr>))"
    using r sh recheck_stopped [OF p(5,6)]
    by (subst advanceOuter.simps) (simp add: Let_def)
  then show ?thesis
    using start p stopped_blocked [OF seg pok p(3) p(6)] by auto
qed

subsection \<open>An append that runs alone\<close>

lemma entrySizeFromSize_pos:
  assumes wf: "wf_params cfg" and sz: "sz < 2 ^ 31"
  shows "0 < unat (entrySizeFromSize (LOG_ENTRY_SIZE cfg) sz)"
proof -
  have L: "0 < LOG_ENTRY_SIZE cfg" "LOG_ENTRY_SIZE cfg \<le> 16" using wf by (simp_all add: wf_params_def)
  have "unat (LOG_ENTRY_SIZE cfg) \<le>
      unat (entrySizeFromSize (LOG_ENTRY_SIZE cfg) (drop_bit 1 (push_bit 1 sz OR 1)))"
    by (rule entrySizeFromSize_ge [OF L])
  moreover have "0 < unat (LOG_ENTRY_SIZE cfg)" using L(1) by (simp add: word_less_nat_alt)
  ultimately show ?thesis using published_position [OF sz] by simp
qed

lemma room_no_wrap:
  assumes wf: "wf_params cfg" and u: "u \<le> MAX_ENTRY_SIZE cfg" and e: "e \<le> MAX_ENTRY_SIZE cfg"
  shows "unat (u + e) = unat u + unat e"
proof -
  have "MAX_ENTRY_SIZE cfg < 2 ^ 31" using wf by (simp add: wf_params_def)
  then have "unat (MAX_ENTRY_SIZE cfg) < 2 ^ 31" by (simp add: word_less_nat_alt)
  then have "unat u + unat e < 2 ^ 32" using u e by (simp add: word_le_nat_alt)
  then show ?thesis by (simp add: unat_word_ariths)
qed

lemma appendEntry_alone:
  assumes wf: "wf_params cfg" and ok: "page_ok cfg pg"
    and es: "entrySize = entrySizeFromSize (LOG_ENTRY_SIZE cfg) sz"
    and le: "entrySize \<le> MAX_ENTRY_SIZE cfg"
    and r: "appendEntry cfg self sz entrySize type [] pg = Some (Inr (entry, pg', env, tr))"
  shows "(entry = None \<and> pg' = pg) \<or>
         (entry = Some (used pg) \<and> \<not> page_sealed pg \<and> sz \<noteq> 0 \<and> sz < 2 ^ 31 \<and>
          used pg < used pg + entrySize \<and> used pg + entrySize \<le> MAX_ENTRY_SIZE cfg \<and>
          pg' = acquired pg sz entrySize type)"
proof (cases "mOffset pg AND 1 = 0")
  case True
  then show ?thesis using r by (simp add: appendEntry_def interfere_def Let_def)
next
  case False
  let ?u = "used pg" and ?M = "MAX_ENTRY_SIZE cfg"
  have loop: "acquireLoop cfg self sz entrySize type (mOffset pg) [] pg ?u [LoadOffset (mOffset pg)] =
      Some (Inr (entry, pg', env, tr))"
    using r False by (simp add: appendEntry_def interfere_def Let_def used_def)
  show ?thesis
  proof (cases "?M < ?u + entrySize")
    case True
    then show ?thesis using loop by (subst (asm) acquireLoop.simps) (simp add: Let_def)
  next
    case room: False
    have free: "mSize (entries pg ?u) = 0" using ok by (simp add: page_ok_def)
    have u: "?u \<le> ?M" using ok by (simp add: page_ok_def)
    have M: "?M < 2 ^ 31" using wf by (simp add: wf_params_def)
    from loop room have al: "(self + LOG_HEADER_SIZE cfg + unat ?u) mod 16 = 8"
      by (subst (asm) acquireLoop.simps) (simp add: Let_def split: if_splits)
    from loop room al have sz: "sz \<noteq> 0" "drop_bit 31 sz = 0"
      by (subst (asm) acquireLoop.simps,
          simp add: Let_def interfere_def tryAcquire_def split: if_splits)+
    have sz31: "sz < 2 ^ 31" by (rule msb_zero_less [OF sz(2)])
    have e0: "0 < unat entrySize" unfolding es by (rule entrySizeFromSize_pos [OF wf sz31])
    have nw: "unat (?u + entrySize) = unat ?u + unat entrySize" by (rule room_no_wrap [OF wf u le])
    have lt: "?u < ?u + entrySize" using nw e0 by (simp add: word_less_nat_alt)
    have e31: "?u + entrySize < 2 ^ 31" using room M by simp
    have "unat (mOffset pg) = 2 * unat ?u + 1"
      unfolding used_def by (rule odd_word_unat [OF False])
    moreover have "unat (push_bit 1 (?u + entrySize) OR 1) = 2 * unat (?u + entrySize) + 1"
      by (rule published_unat [OF e31])
    ultimately have pub: "mOffset pg < push_bit 1 (?u + entrySize) OR 1"
      using nw e0 by (simp add: word_less_nat_alt)
    have "acquireLoop cfg self sz entrySize type (mOffset pg) [] pg ?u [LoadOffset (mOffset pg)] =
       Some (Inr (Some ?u, acquired pg sz entrySize type, [],
         [LoadOffset (mOffset pg), CasSize ?u 0,
          CasOffset (mOffset pg) (push_bit 1 (?u + entrySize) OR 1) (mOffset pg)]))"
      using room al sz free pub
      by (subst acquireLoop.simps, subst publishOffset.simps)
         (simp add: Let_def interfere_def tryAcquire_def acquired_def)
    then show ?thesis using loop False room lt sz sz31 by (simp add: page_sealed_def)
  qed
qed

lemma publishOffset_alone:
  "mOffset pg = offset \<Longrightarrow>
   \<exists>pg3 env3 tr3. publishOffset [] pg offset nOffset endPosition tr = (True, pg3, env3, tr3)"
  by (subst publishOffset.simps) (simp add: Let_def interfere_def)

lemma appendEntry_alone_returns:
  assumes ok: "page_ok cfg pg"
  shows "\<exists>r. appendEntry cfg self sz entrySize type [] pg = Some r \<and>
           (\<not> page_sealed pg \<and> used pg + entrySize \<le> MAX_ENTRY_SIZE cfg \<longrightarrow>
            (\<forall>pg' env tr. r \<noteq> Inr (None, pg', env, tr)))"
proof (cases "mOffset pg AND 1 = 0")
  case True
  then show ?thesis by (simp add: appendEntry_def interfere_def Let_def page_sealed_def)
next
  case False
  let ?u = "used pg"
  have start: "appendEntry cfg self sz entrySize type [] pg =
      acquireLoop cfg self sz entrySize type (mOffset pg) [] pg ?u [LoadOffset (mOffset pg)]"
    using False by (simp add: appendEntry_def interfere_def Let_def used_def)
  have free: "mSize (entries pg ?u) = 0" using ok by (simp add: page_ok_def)
  define pg2 where "pg2 = pg\<lparr>entries := (entries pg)(?u :=
      entries pg ?u\<lparr>mSize := push_bit 1 sz OR 1, mType := type\<rparr>)\<rparr>"
  have "mOffset pg2 = mOffset pg" by (simp add: pg2_def)
  from publishOffset_alone [OF this] obtain pg3 env3 tr3 where
    pub: "publishOffset [] pg2 (mOffset pg) (push_bit 1 (?u + entrySize) OR 1) (?u + entrySize)
            [LoadOffset (mOffset pg), CasSize ?u 0] = (True, pg3, env3, tr3)"
    by blast
  show ?thesis
    unfolding start
    using free pub
    by (subst acquireLoop.simps)
       (auto simp: Let_def interfere_def tryAcquire_def pg2_def)
qed

lemma acquired_page:
  assumes wf: "wf_params cfg" and ok: "page_ok cfg pg"
    and es: "entrySize = entrySizeFromSize (LOG_ENTRY_SIZE cfg) sz"
    and sz: "sz \<noteq> 0" "sz < 2 ^ 31"
    and lt: "used pg < used pg + entrySize" and room: "used pg + entrySize \<le> MAX_ENTRY_SIZE cfg"
  shows acquired_used: "used (acquired pg sz entrySize type) = used pg + entrySize"
    and acquired_unsealed: "\<not> page_sealed (acquired pg sz entrySize type)"
    and acquired_ok: "page_ok cfg (acquired pg sz entrySize type)"
    and acquired_layout: "layout_from cfg pg pos \<Longrightarrow> layout_from cfg (acquired pg sz entrySize type) pos"
    and acquired_sealed_upto: "sealed_upto cfg pg pos \<Longrightarrow> pos \<le> used pg \<Longrightarrow>
           sealed_upto cfg (acquired pg sz entrySize type) pos"
    and acquired_entry: "\<not> entry_sealed (entries (acquired pg sz entrySize type) (used pg))"
proof -
  let ?pg = "acquired pg sz entrySize type" and ?L = "LOG_ENTRY_SIZE cfg"
  have M: "MAX_ENTRY_SIZE cfg < 2 ^ 31" using wf by (simp add: wf_params_def)
  have e31: "used pg + entrySize < 2 ^ 31" using room M by simp
  show u: "used ?pg = used pg + entrySize"
    using published_position [OF e31] by (simp add: used_def acquired_def)
  show "\<not> page_sealed ?pg"
    using published_low_bit [of "used pg + entrySize"] by (simp add: page_sealed_def acquired_def)
  show "page_ok cfg ?pg"
    unfolding page_ok_def
  proof (intro conjI allI impI)
    show "used ?pg \<le> MAX_ENTRY_SIZE cfg" using u room by simp
  next
    fix pos assume "used ?pg \<le> pos"
    then have "used pg < pos" using u lt by simp
    then have "pos \<noteq> used pg" "used pg \<le> pos" by auto
    then show "mSize (entries ?pg pos) = 0" using ok by (simp add: page_ok_def acquired_def)
  qed
  have same: "\<And>x. x \<noteq> used pg \<Longrightarrow> entries ?pg x = entries pg x" by (simp add: acquired_def)
  have keep: "\<And>a xs b. entries_from ?L (entries pg) a xs b \<Longrightarrow> b \<le> used pg \<Longrightarrow>
      entries_from ?L (entries ?pg) a xs b"
  proof -
    fix a xs b assume a: "entries_from ?L (entries pg) a xs b" and b: "b \<le> used pg"
    have "\<And>x. x \<in> set xs \<Longrightarrow> x \<noteq> used pg" using entries_from_bounds [OF a] b by auto
    then have "entries_from ?L (entries ?pg) a xs b = entries_from ?L (entries pg) a xs b"
      by (intro entries_from_cong) (simp add: same)
    then show "entries_from ?L (entries ?pg) a xs b" using a by simp
  qed
  have new: "entries_from ?L (entries ?pg) (used pg) [used pg] (used ?pg)"
    using published_position [OF sz(2)] sz(1) lt es u by (simp add: entry_end_def acquired_def)
  show "layout_from cfg ?pg pos" if "layout_from cfg pg pos"
  proof -
    from that obtain ys where "entries_from ?L (entries pg) pos ys (used pg)"
      by (auto simp: layout_from_def)
    then have "entries_from ?L (entries ?pg) pos ys (used pg)" by (rule keep) simp
    then have "entries_from ?L (entries ?pg) pos (ys @ [used pg]) (used ?pg)"
      using new by (rule entries_from_append)
    then show ?thesis unfolding layout_from_def by blast
  qed
  show "sealed_upto cfg ?pg pos" if "sealed_upto cfg pg pos" "pos \<le> used pg"
  proof -
    from that(1) obtain xs where xs: "entries_from ?L (entries pg) 0 xs pos"
      "list_all (\<lambda>x. entry_sealed (entries pg x)) xs" by (auto simp: sealed_upto_def)
    have "\<And>x. x \<in> set xs \<Longrightarrow> x \<noteq> used pg" using entries_from_bounds [OF xs(1)] that(2) by auto
    then have "list_all (\<lambda>x. entry_sealed (entries ?pg x)) xs"
      using xs(2) by (simp add: list_all_iff same)
    moreover have "entries_from ?L (entries ?pg) 0 xs pos" using xs(1) that(2) by (rule keep)
    ultimately show ?thesis unfolding sealed_upto_def by blast
  qed
  show "\<not> entry_sealed (entries ?pg (used pg))"
    using published_low_bit [of sz] by (simp add: entry_sealed_def acquired_def)
qed

subsection \<open>Pages that grow\<close>

lemma log_inv_chain:
  "log_inv cfg s ps k = (chain_inv cfg s ps k \<and> blocked (heap s) ps k (snd (mSealedHead s)))"
  by (auto simp: log_inv_def chain_inv_def)

lemma pos_le_refl: "pos_le a a"
  by (simp add: pos_le_def)

lemma pos_le_trans: "pos_le a b \<Longrightarrow> pos_le b c \<Longrightarrow> pos_le a c"
  by (auto simp: pos_le_def)

lemma grows_refl: "grows cfg pg pg"
  by (simp add: grows_def)

lemma layout_from_le: "layout_from cfg pg pos \<Longrightarrow> pos \<le> used pg"
  using entries_from_bounds by (auto simp: layout_from_def)

lemma passed_grows:
  assumes p: "passed cfg h ps k pos" and k: "k < length ps"
    and g: "\<And>j. j < length ps \<Longrightarrow> grows cfg (h (ps ! j)) (h' (ps ! j))"
  shows "passed cfg h' ps k pos"
  unfolding passed_def
proof (intro conjI allI impI)
  fix j assume j: "j < k"
  then have a: "page_sealed (h (ps ! j))" "sealed_upto cfg (h (ps ! j)) (used (h (ps ! j)))"
    using p by (simp_all add: passed_def)
  have gj: "grows cfg (h (ps ! j)) (h' (ps ! j))" using g j k by simp
  show "page_sealed (h' (ps ! j))" using gj a by (simp add: grows_def)
  have "used (h' (ps ! j)) = used (h (ps ! j))" using gj a by (simp add: grows_def)
  moreover have "sealed_upto cfg (h' (ps ! j)) (used (h (ps ! j)))"
    using gj a(2) by (simp add: grows_def)
  ultimately show "sealed_upto cfg (h' (ps ! j)) (used (h' (ps ! j)))" by simp
next
  have a: "sealed_upto cfg (h (ps ! k)) pos" "layout_from cfg (h (ps ! k)) pos"
    using p by (simp_all add: passed_def)
  have gk: "grows cfg (h (ps ! k)) (h' (ps ! k))" using g k by simp
  show "layout_from cfg (h' (ps ! k)) pos" using gk a(2) by (simp add: grows_def)
  show "sealed_upto cfg (h' (ps ! k)) pos"
    using gk a layout_from_le [OF a(2)] by (simp add: grows_def)
next
  fix j assume j: "k < j \<and> j < length ps"
  then have "layout_from cfg (h (ps ! j)) 0" using p by (simp add: passed_def)
  then show "layout_from cfg (h' (ps ! j)) 0" using g [of j] j by (simp add: grows_def)
qed

lemma same_content:
  assumes "entries pg' = entries pg" "used pg' = used pg"
  shows "layout_from cfg pg' pos = layout_from cfg pg pos"
    and "sealed_upto cfg pg' pos = sealed_upto cfg pg pos"
    and "page_ok cfg pg' = page_ok cfg pg"
  using assms by (simp_all add: layout_from_def sealed_upto_def page_ok_def)

lemma LogEntry_seal_mSize: "mSize (LogEntry_seal e) = mSize e AND NOT 1"
  by (simp add: LogEntry_seal_def)

lemma LogEntry_seal_size: "drop_bit 1 (mSize (LogEntry_seal e)) = drop_bit 1 (mSize e)"
  by (simp only: LogEntry_seal_mSize clear_low_bit_drop)

lemma LogEntry_seal_sealed: "entry_sealed (LogEntry_seal e)"
  by (simp only: LogEntry_seal_mSize entry_sealed_def clear_low_bit_and)

lemma LogEntry_seal_zero: "mSize e = 0 \<Longrightarrow> mSize (LogEntry_seal e) = 0"
  by (simp add: LogEntry_seal_def)

lemma LogPage_seal_fields:
  "mOffset (LogPage_seal pg) = mOffset pg AND NOT 1"
  "entries (LogPage_seal pg) = entries pg" "mNext (LogPage_seal pg) = mNext pg"
  by (simp_all add: LogPage_seal_def)

lemma LogPage_seal_simps:
  "used (LogPage_seal pg) = used pg" "page_sealed (LogPage_seal pg)"
  by (simp_all only: used_def page_sealed_def LogPage_seal_fields
      clear_low_bit_drop clear_low_bit_and)

lemma seal_entry_at:
  "entries (seal_entry pg pos) x = (if x = pos then LogEntry_seal (entries pg pos) else entries pg x)"
  by (simp add: seal_entry_def)

lemma seal_entry_simps:
  "used (seal_entry pg pos) = used pg" "page_sealed (seal_entry pg pos) = page_sealed pg"
  "mNext (seal_entry pg pos) = mNext pg"
  "x \<noteq> pos \<Longrightarrow> entries (seal_entry pg pos) x = entries pg x"
  by (simp_all add: seal_entry_def used_def page_sealed_def)

lemma seal_entry_size:
  "drop_bit 1 (mSize (entries (seal_entry pg pos) x)) = drop_bit 1 (mSize (entries pg x))"
proof (cases "x = pos")
  case True
  then show ?thesis by (simp only: seal_entry_at simp_thms if_True LogEntry_seal_size)
next
  case False
  then show ?thesis by (simp only: seal_entry_at simp_thms if_False)
qed

lemma seal_entry_sealed:
  "entry_sealed (entries pg x) \<Longrightarrow> entry_sealed (entries (seal_entry pg pos) x)"
  by (simp add: seal_entry_at LogEntry_seal_sealed)

lemma seal_entry_layout:
  "entries_from L (entries (seal_entry pg pos)) a xs b = entries_from L (entries pg) a xs b"
  by (rule entries_from_drop_cong) (rule seal_entry_size)

lemma seal_entry_ok: "page_ok cfg pg \<Longrightarrow> page_ok cfg (seal_entry pg pos)"
  by (simp add: page_ok_def seal_entry_simps(1) seal_entry_at LogEntry_seal_zero)

lemma seal_entry_grows: "grows cfg pg (seal_entry pg pos)"
  unfolding grows_def
proof (intro conjI allI impI)
  fix x assume "x \<le> used pg \<and> sealed_upto cfg pg x"
  then obtain xs where "entries_from (LOG_ENTRY_SIZE cfg) (entries pg) 0 xs x"
    "list_all (\<lambda>x. entry_sealed (entries pg x)) xs" by (auto simp: sealed_upto_def)
  then have "entries_from (LOG_ENTRY_SIZE cfg) (entries (seal_entry pg pos)) 0 xs x \<and>
    list_all (\<lambda>x. entry_sealed (entries (seal_entry pg pos) x)) xs"
    by (simp add: seal_entry_layout list_all_iff seal_entry_sealed)
  then show "sealed_upto cfg (seal_entry pg pos) x" unfolding sealed_upto_def by blast
qed (simp_all add: seal_entry_simps layout_from_def seal_entry_layout)

lemma segment_cong:
  "(\<And>p. p \<in> set ps \<Longrightarrow> mNext (h' p) = mNext (h p)) \<Longrightarrow> segment h' a e ps = segment h a e ps"
  by (induction ps arbitrary: a) auto

lemma segment_snoc:
  "segment h a None ps \<Longrightarrow> ps \<noteq> [] \<Longrightarrow>
   (\<And>p. p \<in> set (butlast ps) \<Longrightarrow> mNext (h' p) = mNext (h p)) \<Longrightarrow>
   mNext (h' (last ps)) = Some np \<Longrightarrow> mNext (h' np) = None \<Longrightarrow>
   segment h' a None (ps @ [np])"
proof (induction ps arbitrary: a)
  case Nil
  then show ?case by simp
next
  case (Cons p ps)
  show ?case
  proof (cases "ps = []")
    case True
    then show ?thesis using Cons.prems by simp
  next
    case False
    then have "segment h' (mNext (h p)) None (ps @ [np])"
      using Cons.prems by (intro Cons.IH) auto
    moreover have "mNext (h' p) = mNext (h p)" using Cons.prems(3) False by simp
    ultimately show ?thesis using Cons.prems(1) by simp
  qed
qed

lemma advance_chain:
  assumes wf: "wf_params cfg" and ch: "chain_inv cfg s ps k"
  shows "\<exists>k' pos'.
           advanceSealedHead cfg s (mSealedHead s) =
             Some (Inr (s\<lparr>mSealedHead := (Some (ps ! k'), pos')\<rparr>)) \<and>
           log_inv cfg (s\<lparr>mSealedHead := (Some (ps ! k'), pos')\<rparr>) ps k' \<and>
           pos_le (k, snd (mSealedHead s)) (k', pos')"
proof -
  have sh: "mSealedHead s = (Some (ps ! k), snd (mSealedHead s))"
    using ch by (simp add: chain_inv_def prod_eq_iff)
  from ch have seg: "segment (heap s) (fst (mTail s)) None ps"
    and pok: "pages_ok cfg (heap s) ps" and k: "k < length ps"
    and pa: "passed cfg (heap s) ps k (snd (mSealedHead s))"
    by (simp_all add: chain_inv_def)
  from advanceSealedHead_spec [OF wf seg pok k pa sh]
  obtain k' pos' where r: "advanceSealedHead cfg s (Some (ps ! k), snd (mSealedHead s)) =
             Some (Inr (s\<lparr>mSealedHead := (Some (ps ! k'), pos')\<rparr>))"
    and p: "k \<le> k'" "k = k' \<longrightarrow> snd (mSealedHead s) \<le> pos'" "k' < length ps"
      "passed cfg (heap s) ps k' pos'" "blocked (heap s) ps k' pos'"
    by blast
  have "log_inv cfg (s\<lparr>mSealedHead := (Some (ps ! k'), pos')\<rparr>) ps k'"
    using ch p by (simp add: log_inv_def chain_inv_def)
  moreover have "pos_le (k, snd (mSealedHead s)) (k', pos')"
    using p(1,2) by (auto simp: pos_le_def)
  ultimately show ?thesis using r sh by (intro exI [of _ k'] exI [of _ pos']) simp
qed

subsection \<open>seal and append keep the invariant\<close>

lemma seal_total:
  assumes wf: "wf_params cfg" and inv: "log_inv cfg s ps k"
  shows "\<exists>s' k'. seal cfg s (Some (p, pos)) = Some (Inr s') \<and> log_inv cfg s' ps k' \<and>
           pos_le (k, snd (mSealedHead s)) (k', snd (mSealedHead s'))"
proof -
  define s1 where "s1 = s\<lparr>heap := (heap s)(p := seal_entry (heap s p) pos)\<rparr>"
  from inv have ch: "chain_inv cfg s ps k" and bl: "blocked (heap s) ps k (snd (mSealedHead s))"
    by (simp_all add: log_inv_chain)
  have g: "\<And>q. grows cfg (heap s q) (heap s1 q)"
    by (simp add: s1_def seal_entry_grows grows_refl)
  have nx: "\<And>q. mNext (heap s1 q) = mNext (heap s q)"
    by (simp add: s1_def seal_entry_simps)
  have sl: "\<And>q. page_sealed (heap s1 q) = page_sealed (heap s q)"
    by (simp add: s1_def seal_entry_simps)
  have us: "\<And>q. used (heap s1 q) = used (heap s q)"
    by (simp add: s1_def seal_entry_simps)
  have ok: "\<And>q. page_ok cfg (heap s q) \<Longrightarrow> page_ok cfg (heap s1 q)"
    by (auto simp: s1_def seal_entry_ok)
  have other: "mSealedHead s1 = mSealedHead s" "mHead s1 = mHead s" "mTail s1 = mTail s"
    "pageManager s1 = pageManager s" by (simp_all add: s1_def)
  have ch1: "chain_inv cfg s1 ps k"
    unfolding chain_inv_def
  proof (intro conjI)
    show "segment (heap s1) (fst (mTail s1)) None ps"
      using ch segment_cong [of ps "heap s1" "heap s"] nx by (simp add: chain_inv_def other)
    show "pages_ok cfg (heap s1) ps" using ch ok sl by (simp add: chain_inv_def pages_ok_def)
    show "passed cfg (heap s1) ps k (snd (mSealedHead s1))"
      using ch g by (auto simp: chain_inv_def other intro: passed_grows)
  qed (use ch in \<open>simp_all add: chain_inv_def other\<close>)
  have sh: "fst (mSealedHead s) = Some (ps ! k)" using ch by (simp add: chain_inv_def)
  have eq: "seal cfg s (Some (p, pos)) =
      (if (ps ! k, snd (mSealedHead s)) \<noteq> (p, pos) then Some (Inr s1)
       else advanceSealedHead cfg s1 (mSealedHead s1))"
    using sh by (simp add: seal_def Let_def s1_def seal_entry_def)
  show ?thesis
  proof (cases "(ps ! k, snd (mSealedHead s)) = (p, pos)")
    case False
    have "entries (heap s1 (ps ! k)) (snd (mSealedHead s)) = entries (heap s (ps ! k)) (snd (mSealedHead s))"
      using False by (auto simp: s1_def seal_entry_at)
    then have "blocked (heap s1) ps k (snd (mSealedHead s1))"
      using bl by (simp add: blocked_def us other)
    then have "log_inv cfg s1 ps k" using ch1 by (simp add: log_inv_chain)
    then show ?thesis
      using eq False by (intro exI [of _ s1] exI [of _ k]) (simp add: other pos_le_refl)
  next
    case True
    from advance_chain [OF wf ch1] obtain k' pos' where
      a: "advanceSealedHead cfg s1 (mSealedHead s1) =
            Some (Inr (s1\<lparr>mSealedHead := (Some (ps ! k'), pos')\<rparr>))"
      and i: "log_inv cfg (s1\<lparr>mSealedHead := (Some (ps ! k'), pos')\<rparr>) ps k'"
      and le: "pos_le (k, snd (mSealedHead s1)) (k', pos')" by blast
    show ?thesis
      using eq True a i le
      by (intro exI [of _ "s1\<lparr>mSealedHead := (Some (ps ! k'), pos')\<rparr>"] exI [of _ k'])
         (simp add: other)
  qed
qed

lemma seal_step:
  assumes wf: "wf_params cfg" and inv: "log_inv cfg s ps k"
    and r: "seal cfg s (Some (p, pos)) = Some (Inr s')"
  shows "\<exists>k'. log_inv cfg s' ps k' \<and> pos_le (k, snd (mSealedHead s)) (k', snd (mSealedHead s'))"
  using seal_total [OF wf inv, of p pos] r by auto

lemma append_step:
  assumes wf: "wf_params cfg" and inv: "log_inv cfg s ps k"
    and es: "entrySize = entrySizeFromSize (LOG_ENTRY_SIZE cfg) sz"
    and sz: "sz \<noteq> 0" "sz < 2 ^ 31"
    and un: "\<not> page_sealed (heap s (last ps))"
    and lt: "used (heap s (last ps)) < used (heap s (last ps)) + entrySize"
    and room: "used (heap s (last ps)) + entrySize \<le> MAX_ENTRY_SIZE cfg"
  shows "log_inv cfg (s\<lparr>heap := (heap s)(last ps := acquired (heap s (last ps)) sz entrySize type)\<rparr>) ps k"
proof -
  let ?h = "last ps" and ?pg = "heap s (last ps)"
  define s1 where "s1 = s\<lparr>heap := (heap s)(?h := acquired ?pg sz entrySize type)\<rparr>"
  from inv have ch: "chain_inv cfg s ps k" and bl: "blocked (heap s) ps k (snd (mSealedHead s))"
    by (simp_all add: log_inv_chain)
  from ch have k: "k < length ps" and pok: "pages_ok cfg (heap s) ps" by (simp_all add: chain_inv_def)
  have ne: "ps \<noteq> []" using k by auto
  have hl: "?h = ps ! (length ps - 1)" by (rule last_conv_nth [OF ne])
  have okh: "page_ok cfg ?pg" using pok ne by (simp add: pages_ok_def hl)
  note acq = acquired_page [OF wf okh es sz lt room]
  have other: "mSealedHead s1 = mSealedHead s" "mHead s1 = mHead s" "mTail s1 = mTail s"
    "pageManager s1 = pageManager s" by (simp_all add: s1_def)
  have hp: "heap s1 ?h = acquired ?pg sz entrySize type" by (simp add: s1_def)
  have oth: "\<And>q. q \<noteq> ?h \<Longrightarrow> heap s1 q = heap s q" by (simp add: s1_def)
  have g: "\<And>q. grows cfg (heap s q) (heap s1 q)"
  proof -
    fix q show "grows cfg (heap s q) (heap s1 q)"
    proof (cases "q = ?h")
      case True
      then show ?thesis using un acq(4,5) by (simp add: grows_def hp)
    next
      case False
      then show ?thesis by (simp add: oth grows_refl)
    qed
  qed
  have nx: "\<And>q. mNext (heap s1 q) = mNext (heap s q)" by (simp add: s1_def acquired_def)
  have ch1: "chain_inv cfg s1 ps k"
    unfolding chain_inv_def
  proof (intro conjI)
    show "segment (heap s1) (fst (mTail s1)) None ps"
      using ch segment_cong [of ps "heap s1" "heap s"] nx by (simp add: chain_inv_def other)
    show "pages_ok cfg (heap s1) ps"
      unfolding pages_ok_def
    proof (intro conjI allI impI)
      show "distinct ps" using pok by (simp add: pages_ok_def)
    next
      fix j assume j: "j < length ps"
      show "page_ok cfg (heap s1 (ps ! j))"
        using pok j acq(3) by (cases "ps ! j = ?h") (simp_all add: hp oth pages_ok_def)
    next
      fix j assume j: "j < length ps" "Suc j < length ps"
      then have "page_sealed (heap s (ps ! j))" using pok by (simp add: pages_ok_def)
      then have "ps ! j \<noteq> ?h" using un by auto
      then show "page_sealed (heap s1 (ps ! j))"
        using \<open>page_sealed (heap s (ps ! j))\<close> by (simp add: oth)
    qed
    show "passed cfg (heap s1) ps k (snd (mSealedHead s1))"
      using ch g by (auto simp: chain_inv_def other intro: passed_grows)
  qed (use ch in \<open>simp_all add: chain_inv_def other\<close>)
  let ?pos = "snd (mSealedHead s)"
  have lay: "layout_from cfg (heap s (ps ! k)) ?pos" using ch by (simp add: chain_inv_def passed_def)
  have "blocked (heap s1) ps k ?pos"
  proof (cases "ps ! k = ?h")
    case False
    have "Suc k \<noteq> length ps"
    proof
      assume "Suc k = length ps"
      then have "k = length ps - 1" by simp
      then show False using False hl by simp
    qed
    then have "?pos \<noteq> used (heap s (ps ! k))"
      using bl by (auto simp: blocked_def split: if_splits)
    then show ?thesis using bl False by (simp add: blocked_def oth)
  next
    case True
    have le: "?pos \<le> used ?pg" using layout_from_le [OF lay] True by simp
    then have ne': "?pos \<noteq> used (heap s1 ?h)" using lt acq(1) by (auto simp: hp)
    show ?thesis
    proof (cases "?pos = used ?pg")
      case eq: True
      then show ?thesis using ne' acq(6) True by (simp add: blocked_def hp)
    next
      case neq: False
      then have "entries (heap s1 ?h) ?pos = entries ?pg ?pos" by (simp add: hp acquired_def)
      then show ?thesis using ne' bl neq True by (simp add: blocked_def)
    qed
  qed
  then show ?thesis using ch1 by (simp add: log_inv_chain other s1_def)
qed

subsection \<open>Linking a new page\<close>

lemma fresh_page_simps:
  "used fresh_page = 0" "\<not> page_sealed fresh_page" "mNext fresh_page = None"
  "page_ok cfg fresh_page" "layout_from cfg fresh_page 0"
proof -
  show u: "used fresh_page = 0" by (simp add: used_def fresh_page_def)
  show "\<not> page_sealed fresh_page" by (simp add: page_sealed_def fresh_page_def)
  show "mNext fresh_page = None" by (simp add: fresh_page_def)
  show "page_ok cfg fresh_page" by (simp add: page_ok_def u) (simp add: fresh_page_def)
  have "entries_from (LOG_ENTRY_SIZE cfg) (entries fresh_page) 0 [] (used fresh_page)"
    by (simp add: u)
  then show "layout_from cfg fresh_page 0" unfolding layout_from_def by blast
qed

lemma inv_same_content:
  assumes inv: "log_inv cfg s ps k"
    and en: "\<And>q. entries (heap s1 q) = entries (heap s q)"
    and us: "\<And>q. used (heap s1 q) = used (heap s q)"
    and nx: "\<And>q. mNext (heap s1 q) = mNext (heap s q)"
    and sl: "\<And>q. page_sealed (heap s q) \<Longrightarrow> page_sealed (heap s1 q)"
    and other: "mSealedHead s1 = mSealedHead s" "mHead s1 = mHead s" "mTail s1 = mTail s"
      "pageManager s1 = pageManager s"
  shows "log_inv cfg s1 ps k"
proof -
  from inv have ch: "chain_inv cfg s ps k" and bl: "blocked (heap s) ps k (snd (mSealedHead s))"
    by (simp_all add: log_inv_chain)
  have g: "\<And>q. grows cfg (heap s q) (heap s1 q)"
    using sl by (simp add: grows_def same_content [OF en us] us)
  have "chain_inv cfg s1 ps k"
    unfolding chain_inv_def
  proof (intro conjI)
    show "segment (heap s1) (fst (mTail s1)) None ps"
      using ch segment_cong [of ps "heap s1" "heap s"] nx by (simp add: chain_inv_def other)
    show "pages_ok cfg (heap s1) ps"
      using ch sl by (simp add: chain_inv_def pages_ok_def same_content [OF en us])
    show "passed cfg (heap s1) ps k (snd (mSealedHead s1))"
      using ch g by (auto simp: chain_inv_def other intro: passed_grows)
  qed (use ch in \<open>simp_all add: chain_inv_def other\<close>)
  moreover have "blocked (heap s1) ps k (snd (mSealedHead s1))"
    using bl by (simp add: blocked_def other us en)
  ultimately show ?thesis by (simp add: log_inv_chain)
qed

lemma butlast_not_last: "distinct ps \<Longrightarrow> p \<in> set (butlast ps) \<Longrightarrow> p \<noteq> last ps"
proof (cases "ps = []")
  case True
  assume "p \<in> set (butlast ps)"
  then show ?thesis using True by simp
next
  case False
  assume d: "distinct ps" and p: "p \<in> set (butlast ps)"
  have "ps = butlast ps @ [last ps]" using False by simp
  then have "distinct (butlast ps @ [last ps])" using d by simp
  then have "last ps \<notin> set (butlast ps)" by simp
  then show ?thesis using p by auto
qed

lemma link_page:
  assumes inv: "log_inv cfg s1 ps k"
    and pm: "pageManager s1 = np # free"
    and sealed: "page_sealed (heap s1 (last ps))"
    and A: "heap s4 np = fresh_page"
    and B: "\<And>q. q \<noteq> np \<Longrightarrow> entries (heap s4 q) = entries (heap s1 q) \<and>
                  mOffset (heap s4 q) = mOffset (heap s1 q)"
    and C: "\<And>q. q \<noteq> np \<Longrightarrow> q \<noteq> last ps \<Longrightarrow> mNext (heap s4 q) = mNext (heap s1 q)"
    and D: "mNext (heap s4 (last ps)) = Some np"
    and other: "mSealedHead s4 = mSealedHead s1" "mHead s4 = Some np" "mTail s4 = mTail s1"
      "pageManager s4 = free"
  shows "chain_inv cfg s4 (ps @ [np]) k"
    and "\<not> (Suc k = length ps \<and> snd (mSealedHead s1) = used (heap s1 (last ps))) \<Longrightarrow>
         blocked (heap s4) (ps @ [np]) k (snd (mSealedHead s4))"
proof -
  from inv have ch: "chain_inv cfg s1 ps k" and bl: "blocked (heap s1) ps k (snd (mSealedHead s1))"
    by (simp_all add: log_inv_chain)
  from ch have seg: "segment (heap s1) (fst (mTail s1)) None ps" and k: "k < length ps"
    and pok: "pages_ok cfg (heap s1) ps" and pa: "passed cfg (heap s1) ps k (snd (mSealedHead s1))"
    and sh: "fst (mSealedHead s1) = Some (ps ! k)"
    and dis: "distinct (pageManager s1)" "set ps \<inter> set (pageManager s1) = {}"
    by (simp_all add: chain_inv_def)
  have ne: "ps \<noteq> []" using k by auto
  have d: "distinct ps" using pok by (simp add: pages_ok_def)
  have np: "np \<notin> set ps" using dis pm by auto
  have in_ps: "\<And>j. j < length ps \<Longrightarrow> ps ! j \<noteq> np" using np by (auto simp: in_set_conv_nth)
  have us: "\<And>q. q \<noteq> np \<Longrightarrow> used (heap s4 q) = used (heap s1 q)" using B by (simp add: used_def)
  have sl: "\<And>q. q \<noteq> np \<Longrightarrow> page_sealed (heap s4 q) = page_sealed (heap s1 q)"
    using B by (simp add: page_sealed_def)
  have en: "\<And>q. q \<noteq> np \<Longrightarrow> entries (heap s4 q) = entries (heap s1 q)" using B by simp
  note same = same_content [OF en us]
  have nth: "\<And>j. j < length ps \<Longrightarrow> (ps @ [np]) ! j = ps ! j" by (simp add: nth_append)
  have nthl: "(ps @ [np]) ! length ps = np" by simp
  have all_sealed: "\<And>j. j < length ps \<Longrightarrow> page_sealed (heap s1 (ps ! j))"
  proof -
    fix j assume j: "j < length ps"
    show "page_sealed (heap s1 (ps ! j))"
    proof (cases "Suc j < length ps")
      case True
      then show ?thesis using pok j by (simp add: pages_ok_def)
    next
      case False
      then have "j = length ps - 1" using j by simp
      then show ?thesis using sealed last_conv_nth [OF ne] by simp
    qed
  qed
  show "chain_inv cfg s4 (ps @ [np]) k"
    unfolding chain_inv_def
  proof (intro conjI)
    have "\<And>p. p \<in> set (butlast ps) \<Longrightarrow> mNext (heap s4 p) = mNext (heap s1 p)"
    proof -
      fix p assume p: "p \<in> set (butlast ps)"
      then have "p \<in> set ps" by (rule in_set_butlastD)
      then have "p \<noteq> np" using np by auto
      moreover have "p \<noteq> last ps" by (rule butlast_not_last [OF d p])
      ultimately show "mNext (heap s4 p) = mNext (heap s1 p)" by (rule C)
    qed
    then have "segment (heap s4) (fst (mTail s1)) None (ps @ [np])"
      using seg ne D A by (intro segment_snoc [of "heap s1"]) (simp_all add: fresh_page_simps)
    then show "segment (heap s4) (fst (mTail s4)) None (ps @ [np])" by (simp add: other)
    show "k < length (ps @ [np])" using k by simp
    show "mHead s4 = Some (last (ps @ [np]))" by (simp add: other)
    show "fst (mSealedHead s4) = Some ((ps @ [np]) ! k)" using sh k by (simp add: other nth)
    show "pages_ok cfg (heap s4) (ps @ [np])"
      unfolding pages_ok_def
    proof (intro conjI allI impI)
      show "distinct (ps @ [np])" using d np by simp
    next
      fix j assume j: "j < length (ps @ [np])"
      show "page_ok cfg (heap s4 ((ps @ [np]) ! j))"
      proof (cases "j < length ps")
        case True
        then show ?thesis using pok in_ps by (simp add: nth same pages_ok_def)
      next
        case False
        then have "j = length ps" using j by simp
        then show ?thesis by (simp add: A fresh_page_simps)
      qed
    next
      fix j assume j: "j < length (ps @ [np])" "Suc j < length (ps @ [np])"
      then have "j < length ps" by simp
      then show "page_sealed (heap s4 ((ps @ [np]) ! j))"
        using all_sealed in_ps by (simp add: nth sl)
    qed
    show "passed cfg (heap s4) (ps @ [np]) k (snd (mSealedHead s4))"
      unfolding passed_def
    proof (intro conjI allI impI)
      fix j assume j: "j < k"
      then have jl: "j < length ps" using k by simp
      show "page_sealed (heap s4 ((ps @ [np]) ! j))"
        using pa j jl in_ps by (simp add: nth sl passed_def)
      show "sealed_upto cfg (heap s4 ((ps @ [np]) ! j)) (used (heap s4 ((ps @ [np]) ! j)))"
        using pa j jl in_ps by (simp add: nth same us passed_def)
    next
      show "sealed_upto cfg (heap s4 ((ps @ [np]) ! k)) (snd (mSealedHead s4))"
        using pa k in_ps by (simp add: nth same other passed_def)
      show "layout_from cfg (heap s4 ((ps @ [np]) ! k)) (snd (mSealedHead s4))"
        using pa k in_ps by (simp add: nth same other passed_def)
    next
      fix j assume j: "k < j \<and> j < length (ps @ [np])"
      show "layout_from cfg (heap s4 ((ps @ [np]) ! j)) 0"
      proof (cases "j < length ps")
        case True
        then show ?thesis using pa j in_ps by (simp add: nth same passed_def)
      next
        case False
        then have "j = length ps" using j by simp
        then show ?thesis by (simp add: A fresh_page_simps)
      qed
    qed
    show "distinct (pageManager s4)" using dis pm by (simp add: other)
    show "set (ps @ [np]) \<inter> set (pageManager s4) = {}" using dis pm by (auto simp: other)
  qed
  show "blocked (heap s4) (ps @ [np]) k (snd (mSealedHead s4))"
    if "\<not> (Suc k = length ps \<and> snd (mSealedHead s1) = used (heap s1 (last ps)))"
  proof -
    have "snd (mSealedHead s1) \<noteq> used (heap s1 (ps ! k))"
    proof
      assume e: "snd (mSealedHead s1) = used (heap s1 (ps ! k))"
      then have "Suc k = length ps" using bl by (simp add: blocked_def)
      moreover from this have "k = length ps - 1" by simp
      then have "ps ! k = last ps" using last_conv_nth [OF ne] by simp
      ultimately show False using that e by simp
    qed
    then show ?thesis
      using bl k in_ps by (simp add: blocked_def nth other us en)
  qed
qed

subsection \<open>createPage keeps the invariant\<close>

lemma prefix_same: "prefix ps ps"
  by (simp add: prefix_def)

lemma createPage_total:
  assumes wf: "wf_params cfg" and inv: "log_inv cfg s ps k"
  shows "\<exists>head' s' ps' k'.
           createPage cfg s (mHead s) = Some (Inr (head', s')) \<and>
           log_inv cfg s' ps' k' \<and> prefix ps ps' \<and>
           pos_le (k, snd (mSealedHead s)) (k', snd (mSealedHead s')) \<and>
           (head' = None \<or>
            (head' = mHead s' \<and> (\<exists>np. head' = Some np \<and> heap s' np = fresh_page)))"
proof -
  from inv have ch: "chain_inv cfg s ps k" by (simp add: log_inv_chain)
  from ch have seg: "segment (heap s) (fst (mTail s)) None ps" and k: "k < length ps"
    and mh: "mHead s = Some (last ps)" and pok: "pages_ok cfg (heap s) ps"
    and sh: "fst (mSealedHead s) = Some (ps ! k)"
    and dis: "distinct (pageManager s)" "set ps \<inter> set (pageManager s) = {}"
    by (simp_all add: chain_inv_def)
  have ne: "ps \<noteq> []" using k by auto
  define oh where "oh = last ps"
  have hl: "oh = ps ! (length ps - 1)" unfolding oh_def by (rule last_conv_nth [OF ne])
  have nx: "mNext (heap s oh) = None"
    using segment_next [OF seg, of "length ps - 1"] ne by (simp add: hl)
  define s1 where "s1 = s\<lparr>heap := (heap s)(oh := LogPage_seal (heap s oh))\<rparr>"
  have inv1: "log_inv cfg s1 ps k"
    using inv
  proof (rule inv_same_content)
    fix q
    show "entries (heap s1 q) = entries (heap s q)" by (simp add: s1_def LogPage_seal_fields)
    show "used (heap s1 q) = used (heap s q)" by (simp add: s1_def LogPage_seal_simps)
    show "mNext (heap s1 q) = mNext (heap s q)" by (simp add: s1_def LogPage_seal_fields)
    show "page_sealed (heap s q) \<Longrightarrow> page_sealed (heap s1 q)"
      by (simp add: s1_def LogPage_seal_simps)
  qed (simp_all add: s1_def)
  show ?thesis
  proof (cases "pageManager s")
    case Nil
    then have "createPage cfg s (mHead s) = Some (Inr (None, s1))"
      using mh nx by (simp add: createPage_def acquirePage_def Let_def s1_def oh_def)
    then show ?thesis
      using inv1
      by (intro exI [of _ None] exI [of _ s1] exI [of _ ps] exI [of _ k])
         (simp add: s1_def pos_le_refl prefix_same)
  next
    case (Cons np free)
    have npo: "np \<noteq> oh" using dis Cons ne by (auto simp: oh_def)
    define s2 where "s2 = s1\<lparr>pageManager := free,
       heap := (heap s1)(np := \<lparr>mOffset = 1, mNext = None,
                                entries = (\<lambda>pos. \<lparr>mSize = 0, mType = 0\<rparr>)\<rparr>)\<rparr>"
    define s3 where "s3 = s2\<lparr>heap := (heap s2)(oh := (heap s2 oh)\<lparr>mNext := Some np\<rparr>)\<rparr>"
    define s4 where "s4 = s3\<lparr>mHead := Some np\<rparr>"
    define at_end where "at_end =
        (fst (mSealedHead s4) = Some oh \<and> snd (mSealedHead s4) = drop_bit 1 (mOffset (heap s4 oh)))"
    have cp: "createPage cfg s (mHead s) =
        (if at_end
         then (case advanceSealedHead cfg s4 (mSealedHead s4) of
                 None \<Rightarrow> None
               | Some (Inl f) \<Rightarrow> Some (Inl f)
               | Some (Inr s5) \<Rightarrow> Some (Inr (Some np, s5)))
         else Some (Inr (Some np, s4)))"
      unfolding at_end_def s4_def s3_def s2_def s1_def
      using mh nx Cons npo
      by (simp add: createPage_def acquirePage_def Let_def oh_def LogPage_seal_fields)
    have pm1: "pageManager s1 = np # free" by (simp add: s1_def Cons)
    have sealed1: "page_sealed (heap s1 (last ps))"
      by (simp add: s1_def oh_def LogPage_seal_simps)
    have A: "heap s4 np = fresh_page"
      using npo by (simp add: s4_def s3_def s2_def fresh_page_def)
    have B: "\<And>q. q \<noteq> np \<Longrightarrow> entries (heap s4 q) = entries (heap s1 q) \<and>
                  mOffset (heap s4 q) = mOffset (heap s1 q)"
      by (simp add: s4_def s3_def s2_def)
    have C: "\<And>q. q \<noteq> np \<Longrightarrow> q \<noteq> last ps \<Longrightarrow> mNext (heap s4 q) = mNext (heap s1 q)"
      by (simp add: s4_def s3_def s2_def oh_def)
    have D: "mNext (heap s4 (last ps)) = Some np"
      by (simp add: s4_def s3_def s2_def oh_def)
    have other: "mSealedHead s4 = mSealedHead s1" "mHead s4 = Some np" "mTail s4 = mTail s1"
      "pageManager s4 = free"
      by (simp_all add: s4_def s3_def s2_def)
    note link = link_page [OF inv1 pm1 sealed1 A B C D other]
    have sh1: "mSealedHead s1 = mSealedHead s" by (simp add: s1_def)
    have pre: "prefix ps (ps @ [np])" by simp
    have d: "distinct ps" using pok by (simp add: pages_ok_def)
    have at_head: "(fst (mSealedHead s4) = Some oh) = (Suc k = length ps)"
    proof -
      have "(ps ! k = ps ! (length ps - 1)) = (k = length ps - 1)"
        using d k ne by (intro nth_eq_iff_index_eq) simp_all
      then show ?thesis using sh ne k by (auto simp: other sh1 hl)
    qed
    have u4: "drop_bit 1 (mOffset (heap s4 oh)) = used (heap s1 (last ps))"
      using B [of oh] npo by (simp add: used_def oh_def)
    show ?thesis
    proof (cases at_end)
      case True
      from advance_chain [OF wf link(1)]
      obtain k' pos' where a: "advanceSealedHead cfg s4 (mSealedHead s4) =
             Some (Inr (s4\<lparr>mSealedHead := (Some ((ps @ [np]) ! k'), pos')\<rparr>))"
        and i: "log_inv cfg (s4\<lparr>mSealedHead := (Some ((ps @ [np]) ! k'), pos')\<rparr>) (ps @ [np]) k'"
        and le: "pos_le (k, snd (mSealedHead s4)) (k', pos')" by blast
      have "createPage cfg s (mHead s) =
          Some (Inr (Some np, s4\<lparr>mSealedHead := (Some ((ps @ [np]) ! k'), pos')\<rparr>))"
        using cp True a by simp
      then show ?thesis
        using i le pre A
        by (intro exI [of _ "Some np"]
              exI [of _ "s4\<lparr>mSealedHead := (Some ((ps @ [np]) ! k'), pos')\<rparr>"]
              exI [of _ "ps @ [np]"] exI [of _ k'])
           (simp add: other sh1)
    next
      case False
      then have "createPage cfg s (mHead s) = Some (Inr (Some np, s4))" using cp by simp
      moreover have "blocked (heap s4) (ps @ [np]) k (snd (mSealedHead s4))"
        using False at_head u4 by (intro link(2)) (auto simp: other at_end_def)
      ultimately show ?thesis
        using link(1) pre A
        by (intro exI [of _ "Some np"] exI [of _ s4] exI [of _ "ps @ [np]"] exI [of _ k])
           (simp add: log_inv_chain other sh1 pos_le_refl)
    qed
  qed
qed

lemma createPage_step:
  assumes wf: "wf_params cfg" and inv: "log_inv cfg s ps k"
    and r: "createPage cfg s (mHead s) = Some (Inr (head', s'))"
  shows "\<exists>ps' k'. log_inv cfg s' ps' k' \<and> prefix ps ps' \<and>
           pos_le (k, snd (mSealedHead s)) (k', snd (mSealedHead s')) \<and>
           (head' = None \<or> head' = mHead s')"
  using createPage_total [OF wf inv] r by auto

subsection \<open>Runs of operations\<close>

lemma appendLoop_inv:
  assumes run: "appendLoop cfg0 sz0 entrySize0 type0 s0 head0 = Some y0"
  shows "wf_params cfg0 \<longrightarrow> entrySize0 = entrySizeFromSize (LOG_ENTRY_SIZE cfg0) sz0 \<longrightarrow>
         entrySize0 \<le> MAX_ENTRY_SIZE cfg0 \<longrightarrow>
         (\<forall>ps k e s'. log_inv cfg0 s0 ps k \<longrightarrow> (head0 = None \<or> head0 = mHead s0) \<longrightarrow>
            y0 = Inr (e, s') \<longrightarrow>
            (\<exists>ps' k'. log_inv cfg0 s' ps' k' \<and> prefix ps ps' \<and>
               pos_le (k, snd (mSealedHead s0)) (k', snd (mSealedHead s'))))"
proof (rule appendLoop.raw_induct
    [where P = "\<lambda>cfg sz entrySize type s head y.
         wf_params cfg \<longrightarrow> entrySize = entrySizeFromSize (LOG_ENTRY_SIZE cfg) sz \<longrightarrow>
         entrySize \<le> MAX_ENTRY_SIZE cfg \<longrightarrow>
         (\<forall>ps k e s'. log_inv cfg s ps k \<longrightarrow> (head = None \<or> head = mHead s) \<longrightarrow>
            y = Inr (e, s') \<longrightarrow>
            (\<exists>ps' k'. log_inv cfg s' ps' k' \<and> prefix ps ps' \<and>
               pos_le (k, snd (mSealedHead s)) (k', snd (mSealedHead s'))))", OF _ run], goal_cases)
  case (1 loop cfg sz entrySize type s head y)
  note IH = 1(1) and body = 1(2)
  show ?case
  proof (intro impI allI)
    fix ps k e s'
    assume wf: "wf_params cfg" and es: "entrySize = entrySizeFromSize (LOG_ENTRY_SIZE cfg) sz"
      and le: "entrySize \<le> MAX_ENTRY_SIZE cfg" and inv: "log_inv cfg s ps k"
      and hd: "head = None \<or> head = mHead s" and y: "y = Inr (e, s')"
    show "\<exists>ps' k'. log_inv cfg s' ps' k' \<and> prefix ps ps' \<and>
               pos_le (k, snd (mSealedHead s)) (k', snd (mSealedHead s'))"
    proof (cases head)
      case None
      then have "s' = s" using body y by simp
      then show ?thesis using inv by (intro exI [of _ ps] exI [of _ k]) (simp add: pos_le_refl)
    next
      case (Some h)
      from inv have k: "k < length ps" and mh: "mHead s = Some (last ps)"
        and pok: "pages_ok cfg (heap s) ps" by (simp_all add: log_inv_def)
      have ne: "ps \<noteq> []" using k by auto
      have h: "h = last ps" using hd Some mh by simp
      have ok: "page_ok cfg (heap s h)"
        using pok ne by (simp add: pages_ok_def h last_conv_nth)
      from body Some y obtain entry pg env tr where
        ap: "appendEntry cfg h sz entrySize type [] (heap s h) = Some (Inr (entry, pg, env, tr))"
        by (auto split: option.splits sum.splits)
      from appendEntry_alone [OF wf ok es le ap]
      show ?thesis
      proof (elim disjE conjE)
        assume n: "entry = None" "pg = heap s h"
        then obtain head' s2 where cp: "createPage cfg s (mHead s) = Some (Inr (head', s2))"
          and l: "loop cfg sz entrySize type s2 head' = Some y"
          using body Some ap mh h y by (auto simp: Let_def split: option.splits sum.splits)
        from createPage_step [OF wf inv cp] obtain ps2 k2 where
          i2: "log_inv cfg s2 ps2 k2" and p2: "prefix ps ps2"
          and le2: "pos_le (k, snd (mSealedHead s)) (k2, snd (mSealedHead s2))"
          and h2: "head' = None \<or> head' = mHead s2" by blast
        from IH [OF l] wf es le i2 h2 y obtain ps' k' where
          "log_inv cfg s' ps' k'" "prefix ps2 ps'"
          "pos_le (k2, snd (mSealedHead s2)) (k', snd (mSealedHead s'))" by blast
        then show ?thesis
          using p2 le2 by (intro exI [of _ ps'] exI [of _ k'])
            (auto intro: pos_le_trans prefix_order.trans)
      next
        assume g: "entry = Some (used (heap s h))" "\<not> page_sealed (heap s h)" "sz \<noteq> 0"
          "sz < 2 ^ 31" "used (heap s h) < used (heap s h) + entrySize"
          "used (heap s h) + entrySize \<le> MAX_ENTRY_SIZE cfg"
          "pg = acquired (heap s h) sz entrySize type"
        then have s': "s' = s\<lparr>heap := (heap s)(h := acquired (heap s h) sz entrySize type)\<rparr>"
          using body Some ap y by (simp add: Let_def)
        have "log_inv cfg s' ps k"
          unfolding s' h by (rule append_step [OF wf inv es g(3,4) g(2,5,6) [unfolded h]])
        then show ?thesis
          by (intro exI [of _ ps] exI [of _ k]) (simp add: pos_le_refl s')
      qed
    qed
  qed
qed

lemma step_inv:
  assumes wf: "wf_params cfg" and inv: "log_inv cfg s ps k"
    and r: "step cfg op s = Some (Inr s')"
  shows "\<exists>ps' k'. log_inv cfg s' ps' k' \<and> prefix ps ps' \<and>
           pos_le (k, snd (mSealedHead s)) (k', snd (mSealedHead s'))"
proof (cases op)
  case (Append sz type)
  then obtain e where a: "Log_append cfg sz type s = Some (Inr (e, s'))"
    using r by (auto simp: step_def map_option_case map_sum_def split: option.splits sum.splits)
  then have le: "entrySizeFromSize (LOG_ENTRY_SIZE cfg) sz \<le> MAX_ENTRY_SIZE cfg"
    and l: "appendLoop cfg sz (entrySizeFromSize (LOG_ENTRY_SIZE cfg) sz) type s (mHead s) =
        Some (Inr (e, s'))"
    by (auto simp: Log_append_def OrderedLog_appendEntry_def Let_def split: if_splits)
  from appendLoop_inv [OF l] wf le inv show ?thesis by blast
next
  case (Seal entry)
  obtain p pos where e: "entry = (p, pos)" by (cases entry)
  from seal_step [OF wf inv, of p pos s'] r Seal e show ?thesis
    by (auto simp: step_def)
next
  case CreatePage
  then obtain head' where "createPage cfg s (mHead s) = Some (Inr (head', s'))"
    using r by (auto simp: step_def map_option_case map_sum_def split: option.splits sum.splits)
  from createPage_step [OF wf inv this] show ?thesis by blast
qed

lemma run_inv:
  assumes wf: "wf_params cfg"
  shows "log_inv cfg s ps k \<Longrightarrow> run cfg ops s = Some (Inr s') \<Longrightarrow>
         \<exists>ps' k'. log_inv cfg s' ps' k' \<and> prefix ps ps' \<and>
           pos_le (k, snd (mSealedHead s)) (k', snd (mSealedHead s'))"
proof (induction ops arbitrary: s ps k)
  case Nil
  then show ?case by (intro exI [of _ ps] exI [of _ k]) (simp add: pos_le_refl)
next
  case (Cons op ops)
  from Cons.prems(2) obtain s1 where st: "step cfg op s = Some (Inr s1)"
    and rest: "run cfg ops s1 = Some (Inr s')"
    by (auto split: option.splits sum.splits)
  from step_inv [OF wf Cons.prems(1) st] obtain ps1 k1 where
    i1: "log_inv cfg s1 ps1 k1" and p1: "prefix ps ps1"
    and le1: "pos_le (k, snd (mSealedHead s)) (k1, snd (mSealedHead s1))" by blast
  from Cons.IH [OF i1 rest] obtain ps' k' where
    "log_inv cfg s' ps' k'" "prefix ps1 ps'"
    "pos_le (k1, snd (mSealedHead s1)) (k', snd (mSealedHead s'))" by blast
  then show ?case
    using p1 le1 by (intro exI [of _ ps'] exI [of _ k'])
      (auto intro: pos_le_trans prefix_order.trans)
qed

lemma appendLoop_returns:
  assumes wf: "wf_params cfg" and inv: "log_inv cfg s ps k"
    and es: "entrySize = entrySizeFromSize (LOG_ENTRY_SIZE cfg) sz"
    and le: "entrySize \<le> MAX_ENTRY_SIZE cfg"
  shows "\<exists>r. appendLoop cfg sz entrySize type s (mHead s) = Some r"
proof -
  from inv have k: "k < length ps" and mh: "mHead s = Some (last ps)"
    and pok: "pages_ok cfg (heap s) ps" by (simp_all add: log_inv_def)
  have ne: "ps \<noteq> []" using k by auto
  let ?h = "last ps"
  have ok: "page_ok cfg (heap s ?h)" using pok ne by (simp add: pages_ok_def last_conv_nth)
  from appendEntry_alone_returns [OF ok] obtain r1 where
    a1: "appendEntry cfg ?h sz entrySize type [] (heap s ?h) = Some r1" by blast
  show ?thesis
  proof (cases r1)
    case (Inl f)
    then show ?thesis using a1 mh by (subst appendLoop.simps) simp
  next
    case (Inr x)
    obtain entry pg env tr where x: "x = (entry, pg, env, tr)" by (cases x)
    show ?thesis
    proof (cases entry)
      case (Some pos)
      then show ?thesis using a1 mh Inr x by (subst appendLoop.simps) (simp add: Let_def)
    next
      case None
      have "pg = heap s ?h" using appendEntry_alone [OF wf ok es le a1 [unfolded Inr x]] None by simp
      then have same: "s\<lparr>heap := (heap s)(?h := pg)\<rparr> = s" by simp
      from createPage_total [OF wf inv] obtain head' s2 ps2 k2 where
        cp: "createPage cfg s (mHead s) = Some (Inr (head', s2))"
        and i2: "log_inv cfg s2 ps2 k2"
        and hd: "head' = None \<or>
            (head' = mHead s2 \<and> (\<exists>np. head' = Some np \<and> heap s2 np = fresh_page))" by blast
      have first: "appendLoop cfg sz entrySize type s (mHead s) =
          appendLoop cfg sz entrySize type s2 head'"
        using a1 mh Inr x None same cp by (subst appendLoop.simps) (simp add: Let_def)
      from hd show ?thesis
      proof
        assume "head' = None"
        then show ?thesis unfolding first by (subst appendLoop.simps) simp
      next
        assume "head' = mHead s2 \<and> (\<exists>np. head' = Some np \<and> heap s2 np = fresh_page)"
        then obtain np where np: "head' = Some np" "heap s2 np = fresh_page" by blast
        have room: "used fresh_page + entrySize \<le> MAX_ENTRY_SIZE cfg"
          using le by (simp add: fresh_page_simps)
        from appendEntry_alone_returns [OF fresh_page_simps(4), of cfg np sz entrySize type]
        obtain r2 where a2: "appendEntry cfg np sz entrySize type [] fresh_page = Some r2"
          and nn: "\<forall>pg' env tr. r2 \<noteq> Inr (None, pg', env, tr)"
          using room fresh_page_simps(2) by blast
        show ?thesis
          unfolding first np(1)
          using a2 nn np(2)
          by (subst appendLoop.simps) (auto simp: Let_def split: sum.splits option.splits)
      qed
    qed
  qed
qed

lemma step_returns:
  assumes wf: "wf_params cfg" and inv: "log_inv cfg s ps k"
  shows "\<exists>r. step cfg op s = Some r"
proof (cases op)
  case (Append sz type)
  show ?thesis
  proof (cases "MAX_ENTRY_SIZE cfg < entrySizeFromSize (LOG_ENTRY_SIZE cfg) sz")
    case True
    then show ?thesis using Append by (simp add: step_def Log_append_def Let_def)
  next
    case False
    then have "entrySizeFromSize (LOG_ENTRY_SIZE cfg) sz \<le> MAX_ENTRY_SIZE cfg" by simp
    from appendLoop_returns [OF wf inv refl this, of type] obtain r where
      "appendLoop cfg sz (entrySizeFromSize (LOG_ENTRY_SIZE cfg) sz) type s (mHead s) = Some r"
      by blast
    then show ?thesis
      using Append False
      by (simp add: step_def Log_append_def OrderedLog_appendEntry_def Let_def)
  qed
next
  case (Seal entry)
  obtain p pos where "entry = (p, pos)" by (cases entry)
  then show ?thesis using seal_total [OF wf inv, of p pos] Seal by (auto simp: step_def)
next
  case CreatePage
  then show ?thesis using createPage_total [OF wf inv] by (auto simp: step_def)
qed

lemma run_returns:
  assumes wf: "wf_params cfg"
  shows "log_inv cfg s ps k \<Longrightarrow> \<exists>r. run cfg ops s = Some r"
proof (induction ops arbitrary: s ps k)
  case Nil
  then show ?case by simp
next
  case (Cons op ops)
  from step_returns [OF wf Cons.prems] obtain r where r: "step cfg op s = Some r" by blast
  show ?case
  proof (cases r)
    case (Inl f)
    then show ?thesis using r by simp
  next
    case (Inr s1)
    from step_inv [OF wf Cons.prems r [unfolded Inr]] obtain ps1 k1 where
      "log_inv cfg s1 ps1 k1" by blast
    from Cons.IH [OF this] show ?thesis using r Inr by simp
  qed
qed

lemma init_inv:
  assumes d: "distinct pm" and i: "OrderedLog_init h pm = Inr s0"
  shows "\<exists>page. log_inv cfg s0 [page] 0"
proof (cases pm)
  case Nil
  then show ?thesis using i by (simp add: OrderedLog_init_def acquirePage_def)
next
  case (Cons page free)
  then have s0: "s0 = \<lparr>heap = h(page := fresh_page), pageManager = free, deferred = [],
      mHead = Some page, mSealedHead = (Some page, 0), mTail = (Some page, 0)\<rparr>"
    using i by (simp add: OrderedLog_init_def acquirePage_def fresh_page_def)
  have "passed cfg (heap s0) [page] 0 0"
    by (simp add: passed_def s0 sealed_upto_zero fresh_page_simps)
  then have "log_inv cfg s0 [page] 0"
    using d Cons
    by (simp add: log_inv_def s0 fresh_page_simps pages_ok_def blocked_def)
  then show ?thesis ..
qed

subsection \<open>The sealed head\<close>

lemma advanceInner_stopped:
  "consistent cfg h p pos sz sealed cur \<Longrightarrow> stopped h p pos sz sealed \<Longrightarrow>
   advanceInner cfg h (Some p, pos) sz sealed cur = Some (Inr ((Some p, pos), sz, sealed, cur))"
  by (subst advanceInner.simps)
     (auto simp: stopped_def offsetAndSealed_def page_sealed_def used_def split: if_splits)

lemma advance_blocked:
  assumes wf: "wf_params cfg" and inv: "log_inv cfg s ps k"
  shows "advanceSealedHead cfg s (mSealedHead s) = Some (Inr s)"
proof -
  let ?h = "heap s" and ?p = "ps ! k" and ?pos = "snd (mSealedHead s)"
  from inv have seg: "segment ?h (fst (mTail s)) None ps" and k: "k < length ps"
    and pok: "pages_ok cfg ?h ps" and pa: "passed cfg ?h ps k ?pos"
    and bl: "blocked ?h ps k ?pos" and sh: "fst (mSealedHead s) = Some ?p"
    by (simp_all add: log_inv_def)
  have shp: "mSealedHead s = (Some ?p, ?pos)" using sh by (simp add: prod_eq_iff)
  have ok: "page_ok cfg (?h ?p)" using pok k by (simp add: pages_ok_def)
  from pa obtain ys where ys: "entries_from (LOG_ENTRY_SIZE cfg) (entries (?h ?p)) ?pos ys (used (?h ?p))"
    by (auto simp: passed_def layout_from_def)
  define sz where "sz = (if ?pos \<le> MAX_ENTRY_SIZE cfg - LOG_ENTRY_SIZE cfg
      then fst (sizeAndSealed (entries (?h ?p) ?pos)) else 0)"
  define sealed where "sealed = (if ?pos \<le> MAX_ENTRY_SIZE cfg - LOG_ENTRY_SIZE cfg
      then snd (sizeAndSealed (entries (?h ?p) ?pos)) else True)"
  define cur where "cur = (if ?pos \<le> MAX_ENTRY_SIZE cfg - LOG_ENTRY_SIZE cfg
      then Some (?p, ?pos) else None)"
  have start: "advanceSealedHead cfg s (Some ?p, ?pos) =
      advanceOuter cfg s (Some ?p, ?pos) (Some ?p, ?pos) sz sealed cur"
    by (simp add: advanceSealedHead_def Let_def sz_def sealed_def cur_def split: prod.splits)
  have con: "consistent cfg ?h ?p ?pos sz sealed cur"
    by (simp add: consistent_def sz_def sealed_def cur_def)
  have st: "stopped ?h ?p ?pos sz sealed"
  proof (cases "?pos = used (?h ?p)")
    case True
    then have "mSize (entries (?h ?p) ?pos) = 0" using ok by (simp add: page_ok_def)
    then have "sz = 0" "sealed" by (simp_all add: sz_def sealed_def sizeAndSealed_def)
    moreover have "mNext (?h ?p) = None"
      using bl True segment_next [OF seg k] by (simp add: blocked_def)
    ultimately show ?thesis using True by (simp add: stopped_def)
  next
    case False
    then obtain zs where zs: "ys = ?pos # zs" using ys by (cases ys) auto
    then have e: "drop_bit 1 (mSize (entries (?h ?p) ?pos)) \<noteq> 0"
      "?pos < entry_end (LOG_ENTRY_SIZE cfg) (entries (?h ?p)) ?pos"
      "entry_end (LOG_ENTRY_SIZE cfg) (entries (?h ?p)) ?pos \<le> used (?h ?p)"
      using ys by simp_all
    have "used (?h ?p) \<le> MAX_ENTRY_SIZE cfg" using ok by (simp add: page_ok_def)
    then have room: "?pos \<le> MAX_ENTRY_SIZE cfg - LOG_ENTRY_SIZE cfg"
      by (rule cursor_room [OF wf e(2,3)])
    have un: "\<not> entry_sealed (entries (?h ?p) ?pos)" using bl False by (simp add: blocked_def)
    have "sz \<noteq> 0" using e(1) room by (simp only: sz_def sizeAndSealed_def if_True fst_conv simp_thms)
    moreover have "\<not> sealed" using un room by (simp add: sealed_def sizeAndSealed_def entry_sealed_def)
    ultimately show ?thesis using False un by (simp add: stopped_def)
  qed
  have "advanceOuter cfg s (Some ?p, ?pos) (Some ?p, ?pos) sz sealed cur =
      Some (Inr (s\<lparr>mSealedHead := (Some ?p, ?pos)\<rparr>))"
    using advanceInner_stopped [OF con st] shp recheck_stopped [OF con st]
    by (subst advanceOuter.simps) (simp add: Let_def)
  moreover have "s\<lparr>mSealedHead := (Some ?p, ?pos)\<rparr> = s" using shp by simp
  ultimately show ?thesis using start shp by simp
qed

lemma wf_small_log: "wf_params small_log"
  by (simp add: wf_params_def small_log_def)

lemma log0_init: "OrderedLog_init (\<lambda>p. busy_page) [4096, 8192] = Inr log0"
  by (simp add: OrderedLog_init_def acquirePage_def log0_def fresh_page_def)

lemma log0_append: "step small_log (Append 10 7) log0 = Some (Inr log_a)"
  apply (simp add: step_def Log_append_def OrderedLog_appendEntry_def Let_def small_log_def esz10)
  apply (subst appendLoop.simps)
  apply (simp add: log0_def appendEntry_def Let_def interfere_def fresh_page_def)
  apply (subst acquireLoop.simps)
  apply (simp add: Let_def interfere_def tryAcquire_def drop_bit_eq_div push_bit_eq_mult)
  apply (subst publishOffset.simps)
  apply (simp add: Let_def interfere_def log_a_def log0_def fresh_page_def)
  done

lemma log_a_append: "step small_log (Append 10 9) log_a = Some (Inr log_b)"
  apply (simp add: step_def Log_append_def OrderedLog_appendEntry_def Let_def small_log_def esz10)
  apply (subst appendLoop.simps)
  apply (simp add: log_a_def log0_def appendEntry_def Let_def interfere_def fresh_page_def)
  apply (subst acquireLoop.simps)
  apply (simp add: Let_def interfere_def tryAcquire_def drop_bit_eq_div push_bit_eq_mult)
  apply (subst publishOffset.simps)
  apply (simp add: Let_def interfere_def log_b_def log_a_def log0_def fresh_page_def)
  done

lemma log_b_seal: "step small_log (Seal (4096, 32)) log_b = Some (Inr log1)"
  by (simp add: step_def seal_def Let_def LogEntry_seal_def log_b_def log1_def log0_def fresh_page_def)

lemma log0_run:
  "run small_log [Append 10 7, Append 10 9, Seal (4096, 32)] log0 = Some (Inr log1)"
  by (simp add: log0_append log_a_append log_b_seal)

lemma log1_seal: "run small_log [Seal (4096, 0)] log1 = Some (Inr log2)"
  apply (simp add: step_def seal_def Let_def log1_def log0_def LogEntry_seal_def)
  apply (simp add: advanceSealedHead_def Let_def small_log_def sizeAndSealed_def drop_bit_eq_div)
  apply (subst advanceOuter.simps)
  apply (subst advanceInner.simps)
  apply (simp add: Let_def esz10 sizeAndSealed_def fresh_page_def drop_bit_eq_div)
  apply (subst advanceInner.simps)
  apply (simp add: Let_def esz10 sizeAndSealed_def drop_bit_eq_div)
  apply (subst advanceInner.simps)
  apply (simp add: Let_def offsetAndSealed_def drop_bit_eq_div)
  apply (simp add: recheck_def offsetAndSealed_def sizeAndSealed_def drop_bit_eq_div log2_def log0_def fresh_page_def)
  done

text \<open>
  C1. Start from a new OrderedLog over any memory, with a PageManager that holds each free
  page once, and run any appends, seals and createPages one after the other; suppose none
  of them fails an assertion. Look at the log after some of them (\<open>s1\<close>) and again after
  more of them (\<open>s2\<close>). The pages from the tail form a chain, and the chain of \<open>s1\<close> is a
  beginning of the chain of \<open>s2\<close>; the sealed head lies on a page of the chain. In \<open>s2\<close>
  every entry before the sealed head is sealed: every earlier page is sealed and its entries
  up to the stored offset are all sealed, and so are the entries of its own page before its
  offset. The sealed head of \<open>s2\<close> is not before the one of \<open>s1\<close> in chain order. It rests
  on an unsealed entry, or at the stored offset of the last page; \<open>advanceSealedHead\<close>
  called there returns without moving it.
\<close>

theorem sealedHead_invariant:
  assumes wf: "wf_params cfg" and d: "distinct pm" and i: "OrderedLog_init h pm = Inr s0"
    and r1: "run cfg ops1 s0 = Some (Inr s1)" and r2: "run cfg ops2 s1 = Some (Inr s2)"
  shows "\<exists>ps1 k1 ps2 k2.
           chain_position s1 ps1 k1 \<and> chain_position s2 ps2 k2 \<and> prefix ps1 ps2 \<and>
           passed cfg (heap s2) ps2 k2 (snd (mSealedHead s2)) \<and>
           pos_le (k1, snd (mSealedHead s1)) (k2, snd (mSealedHead s2)) \<and>
           blocked (heap s2) ps2 k2 (snd (mSealedHead s2)) \<and>
           advanceSealedHead cfg s2 (mSealedHead s2) = Some (Inr s2)"
proof -
  from init_inv [OF d i] obtain page where "log_inv cfg s0 [page] 0" by blast
  from run_inv [OF wf this r1] obtain ps1 k1 where i1: "log_inv cfg s1 ps1 k1" by blast
  from run_inv [OF wf i1 r2] obtain ps2 k2 where i2: "log_inv cfg s2 ps2 k2"
    and p: "prefix ps1 ps2" "pos_le (k1, snd (mSealedHead s1)) (k2, snd (mSealedHead s2))"
    by blast
  have "chain_position s1 ps1 k1" "chain_position s2 ps2 k2"
    using i1 i2 by (simp_all add: chain_position_def log_inv_def pages_ok_def)
  moreover have "passed cfg (heap s2) ps2 k2 (snd (mSealedHead s2))"
    "blocked (heap s2) ps2 k2 (snd (mSealedHead s2))" using i2 by (simp_all add: log_inv_def)
  moreover have "advanceSealedHead cfg s2 (mSealedHead s2) = Some (Inr s2)"
    by (rule advance_blocked [OF wf i2])
  ultimately show ?thesis using p by blast
qed

theorem sealedHead_invariant_witness:
  "OrderedLog_init (\<lambda>p. busy_page) [4096, 8192] = Inr log0 \<and>
   run small_log [Append 10 7, Append 10 9, Seal (4096, 32)] log0 = Some (Inr log1) \<and>
   run small_log [Seal (4096, 0)] log1 = Some (Inr log2) \<and>
   mSealedHead log1 = (Some 4096, 0) \<and> mSealedHead log2 = (Some 4096, 64) \<and>
   (\<exists>ps1 k1 ps2 k2.
      chain_position log1 ps1 k1 \<and> chain_position log2 ps2 k2 \<and> prefix ps1 ps2 \<and>
      passed small_log (heap log2) ps2 k2 (snd (mSealedHead log2)) \<and>
      pos_le (k1, snd (mSealedHead log1)) (k2, snd (mSealedHead log2)) \<and>
      blocked (heap log2) ps2 k2 (snd (mSealedHead log2)) \<and>
      advanceSealedHead small_log log2 (mSealedHead log2) = Some (Inr log2))"
proof -
  have d: "distinct [4096, 8192 :: addr]" by simp
  have "mSealedHead log1 = (Some 4096, 0)" "mSealedHead log2 = (Some 4096, 64)"
    by (simp_all add: log1_def log2_def log0_def)
  then show ?thesis
    using sealedHead_invariant [OF wf_small_log d log0_init log0_run log1_seal]
      log0_init log0_run log1_seal by simp
qed

end
